theory Spec2Isabelle
  imports Main "HOL-Library.Word"
begin

section \<open>Go values shared by the engine and the renderer\<close>

text \<open>
  A Go \<open>error\<close> value. The program inspects errors in two ways only: it prints them
  (\<open>%v\<close>, that is \<open>err.Error()\<close>) and it asks \<open>errors.Is(err, io.EOF)\<close> or
  \<open>errors.Is(err, context.Canceled)\<close>, which walks the chain built by
  \<open>fmt.Errorf("...: %w", err)\<close>. A nil error is \<open>None\<close> of \<open>go_error option\<close>.
\<close>

datatype go_error =
    IoEOF
  | ContextCanceled
  | Plain string
  | Wrap string go_error

fun Error :: "go_error \<Rightarrow> string" where
  "Error IoEOF = ''EOF''"
| "Error ContextCanceled = ''context canceled''"
| "Error (Plain msg) = msg"
| "Error (Wrap prefix inner) = prefix @ Error inner"

fun errors_Is :: "go_error \<Rightarrow> go_error \<Rightarrow> bool" where
  "errors_Is (Wrap prefix inner) target =
     (Wrap prefix inner = target \<or> errors_Is inner target)"
| "errors_Is err target = (err = target)"

section \<open>Engine events and the line framer: package \<open>engine\<close>\<close>

text \<open>
  \<open>ProcessLine\<close>, the event the engine sends: a line event
  \<open>ProcessLine{Index, Line}\<close> or the completion event
  \<open>ProcessLine{Index, IsComplete: true, Err}\<close>. The fields not named in a composite
  literal have Go's zero values. The field names carry the prefix \<open>pl_\<close>, since
  \<open>ProcessState\<close> has a field \<open>Err\<close> too.
\<close>

record ProcessLine =
  pl_Err :: "go_error option"
  pl_Line :: string
  pl_Index :: int
  pl_IsComplete :: bool

definition line_of :: "int \<Rightarrow> string \<Rightarrow> ProcessLine" where
  "line_of idx text = \<lparr>pl_Err = None, pl_Line = text, pl_Index = idx, pl_IsComplete = False\<rparr>"

definition complete_of :: "int \<Rightarrow> go_error option \<Rightarrow> ProcessLine" where
  "complete_of idx err = \<lparr>pl_Err = err, pl_Line = [], pl_Index = idx, pl_IsComplete = True\<rparr>"

text \<open>The bytes \<open>\r\<close> and \<open>\n\<close>.\<close>

definition CR :: char where "CR = CHR 0x0D"
definition LF :: char where "LF = CHR 0x0A"

text \<open>
  \<open>strings.TrimRight(s, cutset)\<close> removes every trailing character that is in the
  cutset. The cutset of the program is \<open>"\r\n"\<close>, two one-byte characters.
\<close>

definition TrimRight :: "string \<Rightarrow> string \<Rightarrow> string" where
  "TrimRight s cutset = rev (dropWhile (\<lambda>c. c \<in> set cutset) (rev s))"

text \<open>
  \<open>bufio.Scanner\<close> belongs to Go's standard library. \<open>streamReader\<close> uses it with
  the default split function \<open>bufio.ScanLines\<close> and a buffer that grows to
  \<open>scannerMaxBufferSize\<close>. It is modelled as the library documents it: a token ends at
  each \<open>\n\<close>, one \<open>\r\<close> before that \<open>\n\<close> is dropped (\<open>dropCR\<close>), and the last
  non-empty piece of input is a token even without a \<open>\n\<close>. When the bytes of one line
  fill the whole buffer before its \<open>\n\<close> arrives, scanning stops with \<open>ErrTooLong\<close> and
  that line yields no token (the reader reports the end of its stream after its last
  bytes, not together with them, as a pipe does). \<open>ScanLines_run maxTok acc data\<close> scans \<open>data\<close>, with
  \<open>acc\<close> the bytes of the line read so far; its second result tells whether the scan
  stopped on a line that is too long.
\<close>

definition scannerMaxBufferSize :: nat where
  "scannerMaxBufferSize = 1024 * 1024"

definition ErrTooLong :: go_error where
  "ErrTooLong = Plain ''bufio.Scanner: token too long''"

definition dropCR :: "string \<Rightarrow> string" where
  "dropCR data = (if data \<noteq> [] \<and> last data = CR then butlast data else data)"

fun ScanLines_run :: "nat \<Rightarrow> string \<Rightarrow> string \<Rightarrow> string list \<times> bool" where
  "ScanLines_run maxTok acc [] = (if acc = [] then [] else [dropCR acc], False)"
| "ScanLines_run maxTok acc (c # cs) =
     (if c = LF then
        (case ScanLines_run maxTok [] cs of (toks, long) \<Rightarrow> (dropCR acc # toks, long))
      else if maxTok \<le> length acc + 1 then ([], True)
      else ScanLines_run maxTok (acc @ [c]) cs)"

text \<open>
  A stream is the bytes its reader delivers and the error that ends it (\<open>io.EOF\<close> at a
  clean end). \<open>Scanner_run\<close> gives the tokens that the calls of \<open>Scan()\<close> yield and
  what \<open>Err()\<close> returns afterwards: nil when the reader ended with \<open>io.EOF\<close>.
\<close>

definition Scanner_run :: "string \<Rightarrow> go_error \<Rightarrow> string list \<times> go_error option" where
  "Scanner_run data readErr =
     (case ScanLines_run scannerMaxBufferSize [] data of
        (toks, long) \<Rightarrow>
          (toks, if long then Some ErrTooLong
                 else if readErr = IoEOF then None else Some readErr))"

text \<open>
  \<open>streamReader\<close>, on the tokens and the final error of its scanner: one line event per
  token, trimmed, then one line event with the stream error if the error is not nil and
  \<open>errors.Is(err, io.EOF)\<close> is false. The result is the sequence of events it sends on
  the output channel before it returns.
\<close>

definition stream_error_line :: "int \<Rightarrow> go_error \<Rightarrow> ProcessLine" where
  "stream_error_line idx err = line_of idx (''[stream error: '' @ Error err @ '']'')"

definition streamReader :: "string list \<Rightarrow> go_error option \<Rightarrow> int \<Rightarrow> ProcessLine list" where
  "streamReader tokens scanErr idx =
     map (\<lambda>text. line_of idx (TrimRight text [CR, LF])) tokens @
     (case scanErr of
        None \<Rightarrow> []
      | Some err \<Rightarrow>
          if \<not> errors_Is err IoEOF
          then [stream_error_line idx err]
          else [])"

text \<open>\<open>streamReader(bufio.NewScanner(r), idx, ...)\<close> on the stream \<open>r\<close>, as \<open>runProcess\<close> starts it.\<close>

definition frame_stream :: "string \<Rightarrow> go_error \<Rightarrow> int \<Rightarrow> ProcessLine list" where
  "frame_stream data readErr idx =
     (case Scanner_run data readErr of (toks, scanErr) \<Rightarrow> streamReader toks scanErr idx)"

section \<open>The process task: \<open>runProcess\<close> and \<open>handleGracefulShutdown\<close>\<close>

text \<open>
  One task runs four goroutines: \<open>runProcess\<close> itself, a \<open>streamReader\<close> for each of
  stdout and stderr, and the goroutine that waits for the streams and then for the command.
  They meet at the \<open>sync.WaitGroup\<close> \<open>streamsWG\<close>, at the channel \<open>done\<close> (capacity 1)
  and at the output channel. The task is a transition system: a state holds the position
  of each goroutine, the counter and the channel, and a transition is one operation of one
  goroutine (a call of the command, a \<open>WaitGroup\<close> or channel operation, a send on the
  output channel).

  What the task does not decide is its environment: the results of the factory and of the
  command's methods, the two streams, and the text that \<open>%v\<close> prints for the shutdown
  timeout. A send on the output channel is taken to be received, each stream to end, and
  \<open>cmd.Wait()\<close> to return.
\<close>

record task_env =
  factoryErr :: "go_error option"
  stdoutPipeErr :: "go_error option"
  stderrPipeErr :: "go_error option"
  startErr :: "go_error option"
  stdoutData :: string
  stdoutReadErr :: go_error
  stderrData :: string
  stderrReadErr :: go_error
  waitErr :: "go_error option"
  hasProcess :: bool
  timeoutText :: string

text \<open>
  The positions of \<open>runProcess\<close> (continued in \<open>handleGracefulShutdown\<close>), of a
  \<open>streamReader\<close> goroutine (with the events it has still to send) and of the waiting
  goroutine. A position that carries an error holds the value received from \<open>done\<close>, or
  the value about to be sent there.
\<close>

datatype main_pc =
    M_Factory
  | M_StdoutPipe
  | M_StderrPipe
  | M_Start
  | M_AddStreams
  | M_GoStdout
  | M_GoStderr
  | M_GoWaiter
  | M_Select
  | M_Cause
  | M_Process
  | M_GracefulSelect
  | M_Graceful "go_error option"
  | M_WaitKilled
  | M_Killed "go_error option"
  | M_WaitExited
  | M_Complete "go_error option"
  | M_Returned

datatype reader_pc = R_NotStarted | R_Emitting "ProcessLine list" | R_Exited

datatype waiter_pc = W_NotStarted | W_WaitStreams | W_WaitCmd | W_Send "go_error option" | W_Exited

text \<open>The state of one task. \<open>doneChan\<close> is the buffer of the channel \<open>done\<close>.\<close>

record task_state =
  main :: main_pc
  stdoutReader :: reader_pc
  stderrReader :: reader_pc
  waiter :: waiter_pc
  streamsWG :: int
  doneChan :: "go_error option option"

type_synonym transition = "ProcessLine option \<times> task_state"

text \<open>
  The transitions of \<open>runProcess\<close> and \<open>handleGracefulShutdown\<close>, in the order of the
  source. A transition is the event it sends on the output channel, if any, and the next
  state. \<open>ctx\<close> is \<open>None\<close> while the context is not cancelled and \<open>context.Cause(ctx)\<close>
  afterwards. A \<open>select\<close> offers every case that is ready: receiving from \<open>done\<close> when
  it holds a value, the cancellation once the context is cancelled, the timer at any
  moment.
\<close>

definition fail_with :: "int \<Rightarrow> string \<Rightarrow> go_error \<Rightarrow> task_state \<Rightarrow> transition list" where
  "fail_with idx prefix err t =
     [(Some (complete_of idx (Some (Wrap prefix err))), t\<lparr>main := M_Returned\<rparr>)]"

definition receive_done :: "(go_error option \<Rightarrow> main_pc) \<Rightarrow> task_state \<Rightarrow> transition list" where
  "receive_done cont t =
     (case doneChan t of
        None \<Rightarrow> []
      | Some w \<Rightarrow> [(None, t\<lparr>doneChan := None, main := cont w\<rparr>)])"

definition main_next :: "task_env \<Rightarrow> int \<Rightarrow> go_error option \<Rightarrow> task_state \<Rightarrow> transition list" where
  "main_next env idx ctx t =
     (case main t of
        M_Factory \<Rightarrow>
          (case factoryErr env of
             Some err \<Rightarrow> fail_with idx ''create command: '' err t
           | None \<Rightarrow> [(None, t\<lparr>main := M_StdoutPipe\<rparr>)])
      | M_StdoutPipe \<Rightarrow>
          (case stdoutPipeErr env of
             Some err \<Rightarrow> fail_with idx ''stdout pipe: '' err t
           | None \<Rightarrow> [(None, t\<lparr>main := M_StderrPipe\<rparr>)])
      | M_StderrPipe \<Rightarrow>
          (case stderrPipeErr env of
             Some err \<Rightarrow> fail_with idx ''stderr pipe: '' err t
           | None \<Rightarrow> [(None, t\<lparr>main := M_Start\<rparr>)])
      | M_Start \<Rightarrow>
          (case startErr env of
             Some err \<Rightarrow> fail_with idx ''start: '' err t
           | None \<Rightarrow> [(None, t\<lparr>main := M_AddStreams\<rparr>)])
      | M_AddStreams \<Rightarrow> [(None, t\<lparr>streamsWG := streamsWG t + 2, main := M_GoStdout\<rparr>)]
      | M_GoStdout \<Rightarrow>
          [(None, t\<lparr>stdoutReader :=
                        R_Emitting (frame_stream (stdoutData env) (stdoutReadErr env) idx),
                      main := M_GoStderr\<rparr>)]
      | M_GoStderr \<Rightarrow>
          [(None, t\<lparr>stderrReader :=
                        R_Emitting (frame_stream (stderrData env) (stderrReadErr env) idx),
                      main := M_GoWaiter\<rparr>)]
      | M_GoWaiter \<Rightarrow> [(None, t\<lparr>waiter := W_WaitStreams, main := M_Select\<rparr>)]
      | M_Select \<Rightarrow>
          receive_done M_Complete t @
          (case ctx of None \<Rightarrow> [] | Some cause \<Rightarrow> [(None, t\<lparr>main := M_Cause\<rparr>)])
      | M_Cause \<Rightarrow>
          (case ctx of
             None \<Rightarrow> [(None, t\<lparr>main := M_Process\<rparr>)]
           | Some cause \<Rightarrow>
               if \<not> errors_Is cause ContextCanceled
               then [(Some (line_of idx (''[cancellation: '' @ Error cause @ '']'')),
                      t\<lparr>main := M_Process\<rparr>)]
               else [(None, t\<lparr>main := M_Process\<rparr>)])
      | M_Process \<Rightarrow>
          if hasProcess env
          then [(Some (line_of idx ''[sending SIGTERM for graceful shutdown...]''),
                 t\<lparr>main := M_GracefulSelect\<rparr>)]
          else [(None, t\<lparr>main := M_WaitExited\<rparr>)]
      | M_GracefulSelect \<Rightarrow>
          receive_done M_Graceful t @
          [(Some (line_of idx (''[graceful shutdown timeout ('' @ timeoutText env @
                                 ''), force killing...]'')),
            t\<lparr>main := M_WaitKilled\<rparr>)]
      | M_Graceful w \<Rightarrow>
          [(Some (line_of idx ''[gracefully terminated]''), t\<lparr>main := M_Complete w\<rparr>)]
      | M_WaitKilled \<Rightarrow> receive_done M_Killed t
      | M_Killed w \<Rightarrow>
          [(Some (line_of idx ''[force killed]''), t\<lparr>main := M_Complete w\<rparr>)]
      | M_WaitExited \<Rightarrow> receive_done M_Complete t
      | M_Complete w \<Rightarrow> [(Some (complete_of idx w), t\<lparr>main := M_Returned\<rparr>)]
      | M_Returned \<Rightarrow> [])"

text \<open>
  The two \<open>streamReader\<close> goroutines: each sends its events in order, and its deferred
  \<open>wg.Done()\<close> runs when it returns.
\<close>

definition stdout_next :: "task_state \<Rightarrow> transition list" where
  "stdout_next t =
     (case stdoutReader t of
        R_NotStarted \<Rightarrow> []
      | R_Emitting [] \<Rightarrow> [(None, t\<lparr>stdoutReader := R_Exited, streamsWG := streamsWG t - 1\<rparr>)]
      | R_Emitting (ev # evs) \<Rightarrow> [(Some ev, t\<lparr>stdoutReader := R_Emitting evs\<rparr>)]
      | R_Exited \<Rightarrow> [])"

definition stderr_next :: "task_state \<Rightarrow> transition list" where
  "stderr_next t =
     (case stderrReader t of
        R_NotStarted \<Rightarrow> []
      | R_Emitting [] \<Rightarrow> [(None, t\<lparr>stderrReader := R_Exited, streamsWG := streamsWG t - 1\<rparr>)]
      | R_Emitting (ev # evs) \<Rightarrow> [(Some ev, t\<lparr>stderrReader := R_Emitting evs\<rparr>)]
      | R_Exited \<Rightarrow> [])"

text \<open>The goroutine \<open>func() { streamsWG.Wait(); done <- cmd.Wait() }\<close>.\<close>

definition waiter_next :: "task_env \<Rightarrow> task_state \<Rightarrow> transition list" where
  "waiter_next env t =
     (case waiter t of
        W_NotStarted \<Rightarrow> []
      | W_WaitStreams \<Rightarrow> if streamsWG t = 0 then [(None, t\<lparr>waiter := W_WaitCmd\<rparr>)] else []
      | W_WaitCmd \<Rightarrow> [(None, t\<lparr>waiter := W_Send (waitErr env)\<rparr>)]
      | W_Send v \<Rightarrow>
          (case doneChan t of
             None \<Rightarrow> [(None, t\<lparr>doneChan := Some v, waiter := W_Exited\<rparr>)]
           | Some _ \<Rightarrow> [])
      | W_Exited \<Rightarrow> [])"

text \<open>All transitions of a task, and its state when \<open>runProcess\<close> is called.\<close>

definition task_next :: "task_env \<Rightarrow> int \<Rightarrow> go_error option \<Rightarrow> task_state \<Rightarrow> transition list" where
  "task_next env idx ctx t =
     main_next env idx ctx t @ stdout_next t @ stderr_next t @ waiter_next env t"

definition task_init :: task_state where
  "task_init = \<lparr>main = M_Factory, stdoutReader = R_NotStarted, stderrReader = R_NotStarted,
                 waiter = W_NotStarted, streamsWG = 0, doneChan = None\<rparr>"

text \<open>
  \<open>Engine.Run\<close> starts one task per spec, with the position of the spec as its index;
  all tasks send on the one output channel. A run is a schedule: at each step either the
  context is cancelled (once, with a cause) or task \<open>i\<close> takes its \<open>k\<close>-th enabled
  transition. A step that is not enabled gives \<open>None\<close>.
\<close>

record engine_state =
  tasks :: "task_state list"
  ctx_cause :: "go_error option"
  outputs :: "ProcessLine list"

datatype action = Cancel go_error | Step nat nat

definition emitted :: "ProcessLine option \<Rightarrow> ProcessLine list" where
  "emitted ev = (case ev of None \<Rightarrow> [] | Some e \<Rightarrow> [e])"

fun engine_step :: "task_env list \<Rightarrow> action \<Rightarrow> engine_state \<Rightarrow> engine_state option" where
  "engine_step envs (Cancel cause) s =
     (if ctx_cause s = None then Some (s\<lparr>ctx_cause := Some cause\<rparr>) else None)"
| "engine_step envs (Step i k) s =
     (if i < length envs \<and> i < length (tasks s) \<and>
         k < length (task_next (envs ! i) (int i) (ctx_cause s) (tasks s ! i))
      then (case task_next (envs ! i) (int i) (ctx_cause s) (tasks s ! i) ! k of
              (ev, t') \<Rightarrow>
                Some (s\<lparr>tasks := (tasks s)[i := t'], outputs := outputs s @ emitted ev\<rparr>))
      else None)"

fun engine_run :: "task_env list \<Rightarrow> action list \<Rightarrow> engine_state \<Rightarrow> engine_state option" where
  "engine_run envs [] s = Some s"
| "engine_run envs (a # sched) s =
     (case engine_step envs a s of None \<Rightarrow> None | Some s' \<Rightarrow> engine_run envs sched s')"

definition Run_init :: "task_env list \<Rightarrow> engine_state" where
  "Run_init envs = \<lparr>tasks = replicate (length envs) task_init, ctx_cause = None, outputs = []\<rparr>"

text \<open>The events of the output channel that carry index \<open>i\<close>.\<close>

definition events_of :: "nat \<Rightarrow> ProcessLine list \<Rightarrow> ProcessLine list" where
  "events_of i evs = filter (\<lambda>e. pl_Index e = int i) evs"

section \<open>Renderer state: \<open>renderer/state.go\<close>\<close>

text \<open>
  Go's \<open>int\<close> on the 64-bit platforms: a 64-bit word, read as a signed number by
  \<open>sint\<close>, whose \<open>+\<close> and \<open>-\<close> wrap around. \<open>len\<close> of a string or of a slice is the
  length of what is held in memory, which a Go \<open>int\<close> always holds.
\<close>

type_synonym go_int = "64 word"

text \<open>
  \<open>ProcessState\<close>, field by field. A \<open>[]string\<close> is a list of byte strings (\<open>length\<close>
  counts bytes, as Go's \<open>len\<close> does on a string), each state's slice having its own
  backing array, as slices grown from nil by \<open>append\<close> have.
\<close>

record ProcessState =
  Err :: "go_error option"
  Name :: string
  Lines :: "string list"
  ByteSize :: go_int
  MaxLines :: go_int
  MaxBytes :: go_int
  Done :: bool
  Running :: bool
  Dirty :: bool

text \<open>The two renderer events: \<open>lineEvent{Line, Index}\<close> and \<open>doneEvent{Err, Index}\<close>.\<close>

datatype Event =
    lineEvent string int
  | doneEvent "go_error option" int

text \<open>
  \<open>states[i]\<close> with Go's bounds check: \<open>None\<close> is the run-time panic
  "index out of range".
\<close>

definition index_state :: "ProcessState list \<Rightarrow> int \<Rightarrow> ProcessState option" where
  "index_state states i =
     (if 0 \<le> i \<and> i < int (length states) then Some (states ! nat i) else None)"

text \<open>
  The two tests of the eviction loop, \<open>ps.MaxLines > 0 && len(ps.Lines) > ps.MaxLines\<close>
  and \<open>ps.MaxBytes > 0 && ps.ByteSize > ps.MaxBytes\<close>: signed comparisons of Go ints.
\<close>

definition exceedsLineLimit :: "ProcessState \<Rightarrow> bool" where
  "exceedsLineLimit ps \<longleftrightarrow>
     sint (MaxLines ps) > 0 \<and> int (length (Lines ps)) > sint (MaxLines ps)"

definition exceedsByteLimit :: "ProcessState \<Rightarrow> bool" where
  "exceedsByteLimit ps \<longleftrightarrow>
     sint (MaxBytes ps) > 0 \<and> sint (ByteSize ps) > sint (MaxBytes ps)"

text \<open>
  The eviction loop of \<open>ApplyEvent\<close> (the \<open>for { ... }\<close> of the \<open>lineEvent\<close> case), on the
  state \<open>ps\<close> points to. \<open>ps.Lines[0]\<close> and \<open>ps.Lines[1:]\<close> panic on an empty slice:
  that is the \<open>None\<close> branch. \<open>ps.ByteSize -= len(oldestLine)\<close> is a subtraction of Go
  ints, which wraps.
\<close>

function evict_loop :: "ProcessState \<Rightarrow> ProcessState option" where
  "evict_loop ps =
     (if \<not> exceedsLineLimit ps \<and> \<not> exceedsByteLimit ps then Some ps
      else if length (Lines ps) = 0 then Some ps
      else (case Lines ps of
              [] \<Rightarrow> None
            | oldestLine # rest \<Rightarrow>
                evict_loop (ps\<lparr>Lines := rest,
                               ByteSize := ByteSize ps - of_nat (length oldestLine)\<rparr>)))"
  by pat_completeness auto
termination
  by (relation "measure (\<lambda>ps. length (Lines ps))") auto

declare evict_loop.simps [simp del]

text \<open>
  \<open>ApplyEvent(states, ev)\<close>. The Go function mutates the slice in place and returns nothing;
  the model returns the slice after the call, or \<open>None\<close> if the call panics.
  \<open>ps.ByteSize += lineBytes\<close> is an addition of Go ints, which wraps.
\<close>

fun ApplyEvent :: "ProcessState list \<Rightarrow> Event \<Rightarrow> ProcessState list option" where
  "ApplyEvent states (lineEvent line idx) =
     (if idx < 0 \<or> idx \<ge> int (length states) then Some states
      else (case index_state states idx of
              None \<Rightarrow> None
            | Some ps \<Rightarrow>
                (let lineBytes = of_nat (length line);
                     ps1 = ps\<lparr>Lines := Lines ps @ [line]\<rparr>;
                     ps2 = ps1\<lparr>ByteSize := ByteSize ps1 + lineBytes\<rparr>
                 in case evict_loop ps2 of
                      None \<Rightarrow> None
                    | Some ps3 \<Rightarrow> Some (states[nat idx := ps3\<lparr>Dirty := True\<rparr>]))))"
| "ApplyEvent states (doneEvent err idx) =
     (if idx < 0 \<or> idx \<ge> int (length states) then Some states
      else (case index_state states idx of
              None \<Rightarrow> None
            | Some ps \<Rightarrow>
                Some (states[nat idx := ps\<lparr>Done := True, Running := False,
                                            Err := err, Dirty := True\<rparr>])))"

text \<open>\<open>ExitCodeFromStates\<close>: the first state with a non-nil \<open>Err\<close> returns 1.\<close>

fun ExitCodeFromStates :: "ProcessState list \<Rightarrow> int" where
  "ExitCodeFromStates [] = 0"
| "ExitCodeFromStates (ps # rest) =
     (if Err ps \<noteq> None then 1 else ExitCodeFromStates rest)"

text \<open>
  The caller's loop \<open>for ev := range events { ApplyEvent(states, ev) }\<close>: the events are
  applied in order, each to the slice the previous call left.
\<close>

fun ApplyEvents :: "ProcessState list \<Rightarrow> Event list \<Rightarrow> ProcessState list option" where
  "ApplyEvents states [] = Some states"
| "ApplyEvents states (ev # evs) =
     (case ApplyEvent states ev of
        None \<Rightarrow> None
      | Some states' \<Rightarrow> ApplyEvents states' evs)"

fun event_index :: "Event \<Rightarrow> int" where
  "event_index (lineEvent line idx) = idx"
| "event_index (doneEvent err idx) = idx"

fun line_events :: "int \<Rightarrow> string list \<Rightarrow> Event list" where
  "line_events idx [] = []"
| "line_events idx (l # ls) = lineEvent l idx # line_events idx ls"

text \<open>
  The state \<open>runner.Run\<close> builds for each process before any event:
  no lines, byte total 0, running, dirty.
\<close>

definition initial_state :: "string \<Rightarrow> go_int \<Rightarrow> go_int \<Rightarrow> ProcessState" where
  "initial_state name maxLines maxBytes =
     \<lparr>Err = None, Name = name, Lines = [], ByteSize = 0, MaxLines = maxLines,
      MaxBytes = maxBytes, Done = False, Running = True, Dirty = True\<rparr>"

section \<open>The specification's side\<close>

text \<open>The sum of the byte lengths of the retained lines.\<close>

definition byte_total :: "string list \<Rightarrow> int" where
  "byte_total ls = sum_list (map (\<lambda>l. int (length l)) ls)"

text \<open>
  The byte-accounting invariant: the running byte total is the byte total of the
  retained lines, as Go ints. Lines that are held in memory have fewer than \<open>2^63\<close>
  bytes together, and then this is \<open>sint (ByteSize ps) = byte_total (Lines ps)\<close>.
\<close>

definition accounted :: "ProcessState \<Rightarrow> bool" where
  "accounted ps \<longleftrightarrow> ByteSize ps = word_of_int (byte_total (Lines ps))"

text \<open>
  The dual constraint: a positive line cap bounds the number of retained lines, a
  positive byte cap bounds the running byte total.
\<close>

definition dual_constraint :: "ProcessState \<Rightarrow> bool" where
  "dual_constraint ps \<longleftrightarrow>
     (0 < sint (MaxLines ps) \<longrightarrow> int (length (Lines ps)) \<le> sint (MaxLines ps)) \<and>
     (0 < sint (MaxBytes ps) \<longrightarrow> sint (ByteSize ps) \<le> sint (MaxBytes ps))"

text \<open>
  The update the specification describes for a Line event, in its words, on numbers
  without bound: while a cap is exceeded and the buffer is non-empty, evict the oldest
  retained line and decrement the byte total by its length. A cap that is not positive is
  no cap (0 = unbounded).
\<close>

fun spec_evict :: "int \<Rightarrow> int \<Rightarrow> string list \<Rightarrow> int \<Rightarrow> string list \<times> int" where
  "spec_evict capL capB [] bytes = ([], bytes)"
| "spec_evict capL capB (oldest # rest) bytes =
     (if (0 < capL \<and> capL < int (length (oldest # rest))) \<or> (0 < capB \<and> capB < bytes)
      then spec_evict capL capB rest (bytes - int (length oldest))
      else (oldest # rest, bytes))"

text \<open>Append the line, add its byte length, evict, mark dirty.\<close>

definition spec_apply_line :: "ProcessState \<Rightarrow> string \<Rightarrow> ProcessState" where
  "spec_apply_line ps line =
     (case spec_evict (sint (MaxLines ps)) (sint (MaxBytes ps)) (Lines ps @ [line])
             (sint (ByteSize ps) + int (length line)) of
        (ls, bytes) \<Rightarrow> ps\<lparr>Lines := ls, ByteSize := word_of_int bytes, Dirty := True\<rparr>)"

text \<open>
  The numbers a Go \<open>int\<close> holds. \<open>no_wrap ps line\<close>: the running byte total of \<open>ps\<close>
  with the bytes of \<open>line\<close> added, and with the bytes of all retained lines subtracted,
  are such numbers, so that no addition or subtraction in the update of \<open>ps\<close> by
  \<open>line\<close> wraps. It holds when the running byte total is the byte total of the
  lines and the lines, with the new one, have fewer than \<open>2^63\<close> bytes.
\<close>

definition fits_int :: "int \<Rightarrow> bool" where
  "fits_int x \<longleftrightarrow> - (2 ^ 63) \<le> x \<and> x < 2 ^ 63"

definition no_wrap :: "ProcessState \<Rightarrow> string \<Rightarrow> bool" where
  "no_wrap ps line \<longleftrightarrow>
     fits_int (sint (ByteSize ps) + int (length line)) \<and>
     fits_int (sint (ByteSize ps) - byte_total (Lines ps))"

text \<open>
  Line framing in which each of \<open>\r\n\<close>, \<open>\n\<close> and \<open>\r\<close> ends a line: \<open>acc\<close> is the
  line read so far, and the last non-empty piece is a line too.
\<close>

fun spec_frame :: "string \<Rightarrow> string \<Rightarrow> string list" where
  "spec_frame acc [] = (if acc = [] then [] else [acc])"
| "spec_frame acc [c] = (if c = LF \<or> c = CR then [acc] else [acc @ [c]])"
| "spec_frame acc (c # d # cs) =
     (if c = CR \<and> d = LF then acc # spec_frame [] cs
      else if c = LF \<or> c = CR then acc # spec_frame [] (d # cs)
      else spec_frame (acc @ [c]) (d # cs))"

text \<open>
  Input in which every \<open>\r\<close> is directly followed by \<open>\n\<close>; text without \<open>\r\<close> and
  \<open>\n\<close>; text that ends with \<open>\r\<close> or \<open>\n\<close>.
\<close>

fun no_lone_CR :: "string \<Rightarrow> bool" where
  "no_lone_CR [] = True"
| "no_lone_CR [c] = (c \<noteq> CR)"
| "no_lone_CR (c # d # cs) = ((c = CR \<longrightarrow> d = LF) \<and> no_lone_CR (d # cs))"

definition clean :: "string \<Rightarrow> bool" where
  "clean s \<longleftrightarrow> CR \<notin> set s \<and> LF \<notin> set s"

definition ends_with_eol :: "string \<Rightarrow> bool" where
  "ends_with_eol s \<longleftrightarrow> s \<noteq> [] \<and> (last s = CR \<or> last s = LF)"

text \<open>
  The lines of a stream when \<open>\n\<close> alone ends a line: \<open>acc\<close> is the line read so far,
  and the last non-empty piece is a line too. A stream's lines fit when each is shorter
  than the scanner's largest buffer.
\<close>

fun LF_lines :: "string \<Rightarrow> string \<Rightarrow> string list" where
  "LF_lines acc [] = (if acc = [] then [] else [acc])"
| "LF_lines acc (c # cs) = (if c = LF then acc # LF_lines [] cs else LF_lines (acc @ [c]) cs)"

definition lines_fit :: "string \<Rightarrow> bool" where
  "lines_fit data \<longleftrightarrow> list_all (\<lambda>p. length p < scannerMaxBufferSize) (LF_lines [] data)"

text \<open>
  The order of one index's events: line events only while its task runs, and line events
  followed by one completion event, the last event, once \<open>runProcess\<close> has returned.
\<close>

definition is_line :: "int \<Rightarrow> ProcessLine \<Rightarrow> bool" where
  "is_line idx e \<longleftrightarrow> \<not> pl_IsComplete e \<and> pl_Index e = idx"

definition lines_then_terminal :: "int \<Rightarrow> bool \<Rightarrow> ProcessLine list \<Rightarrow> bool" where
  "lines_then_terminal idx returned evs \<longleftrightarrow>
     (if returned
      then evs \<noteq> [] \<and> list_all (is_line idx) (butlast evs) \<and>
           pl_IsComplete (last evs) \<and> pl_Index (last evs) = idx
      else list_all (is_line idx) evs)"

section \<open>What holds in every state of a task\<close>

datatype stage =
    S_PreStart | S_Added | S_StdoutStarted | S_StderrStarted | S_Running | S_Received
  | S_Finished

fun main_stage :: "main_pc \<Rightarrow> stage" where
  "main_stage M_Factory = S_PreStart"
| "main_stage M_StdoutPipe = S_PreStart"
| "main_stage M_StderrPipe = S_PreStart"
| "main_stage M_Start = S_PreStart"
| "main_stage M_AddStreams = S_PreStart"
| "main_stage M_GoStdout = S_Added"
| "main_stage M_GoStderr = S_StdoutStarted"
| "main_stage M_GoWaiter = S_StderrStarted"
| "main_stage M_Select = S_Running"
| "main_stage M_Cause = S_Running"
| "main_stage M_Process = S_Running"
| "main_stage M_GracefulSelect = S_Running"
| "main_stage M_WaitKilled = S_Running"
| "main_stage M_WaitExited = S_Running"
| "main_stage (M_Graceful w) = S_Received"
| "main_stage (M_Killed w) = S_Received"
| "main_stage (M_Complete w) = S_Received"
| "main_stage M_Returned = S_Finished"

fun pending :: "reader_pc \<Rightarrow> int" where
  "pending R_Exited = 0"
| "pending r = 1"

fun reader_ok :: "int \<Rightarrow> reader_pc \<Rightarrow> bool" where
  "reader_ok idx (R_Emitting evs) = list_all (is_line idx) evs"
| "reader_ok idx r = True"

text \<open>
  \<open>runProcess\<close> goes through stages: before the streams are added to the
  \<open>WaitGroup\<close>, while the goroutines are started, while it waits in
  \<open>handleGracefulShutdown\<close>, after it has received from \<open>done\<close>, and returned. In each
  stage the counter of the \<open>WaitGroup\<close> is the number of readers that have not returned,
  the waiting goroutine passes \<open>streamsWG.Wait()\<close> only at zero, and \<open>done\<close> holds a
  value exactly between the send of the waiting goroutine and the receive of
  \<open>runProcess\<close>.
\<close>

definition sync_inv :: "task_state \<Rightarrow> bool" where
  "sync_inv t =
     (case main_stage (main t) of
        S_PreStart \<Rightarrow>
          stdoutReader t = R_NotStarted \<and> stderrReader t = R_NotStarted \<and>
          waiter t = W_NotStarted \<and> doneChan t = None \<and> streamsWG t = 0
      | S_Added \<Rightarrow>
          stdoutReader t = R_NotStarted \<and> stderrReader t = R_NotStarted \<and>
          waiter t = W_NotStarted \<and> doneChan t = None \<and> streamsWG t = 2
      | S_StdoutStarted \<Rightarrow>
          stdoutReader t \<noteq> R_NotStarted \<and> stderrReader t = R_NotStarted \<and>
          waiter t = W_NotStarted \<and> doneChan t = None \<and>
          streamsWG t = pending (stdoutReader t) + 1
      | S_StderrStarted \<Rightarrow>
          stdoutReader t \<noteq> R_NotStarted \<and> stderrReader t \<noteq> R_NotStarted \<and>
          waiter t = W_NotStarted \<and> doneChan t = None \<and>
          streamsWG t = pending (stdoutReader t) + pending (stderrReader t)
      | S_Running \<Rightarrow>
          stdoutReader t \<noteq> R_NotStarted \<and> stderrReader t \<noteq> R_NotStarted \<and>
          waiter t \<noteq> W_NotStarted \<and>
          streamsWG t = pending (stdoutReader t) + pending (stderrReader t) \<and>
          (waiter t \<noteq> W_WaitStreams \<longrightarrow> streamsWG t = 0) \<and>
          (doneChan t \<noteq> None \<longleftrightarrow> waiter t = W_Exited)
      | S_Received \<Rightarrow>
          stdoutReader t = R_Exited \<and> stderrReader t = R_Exited \<and>
          waiter t = W_Exited \<and> doneChan t = None
      | S_Finished \<Rightarrow>
          doneChan t = None \<and>
          (stdoutReader t = R_NotStarted \<and> stderrReader t = R_NotStarted \<and>
             waiter t = W_NotStarted \<or>
           stdoutReader t = R_Exited \<and> stderrReader t = R_Exited \<and> waiter t = W_Exited))"

definition task_inv :: "int \<Rightarrow> task_state \<Rightarrow> ProcessLine list \<Rightarrow> bool" where
  "task_inv idx t evs \<longleftrightarrow>
     reader_ok idx (stdoutReader t) \<and> reader_ok idx (stderrReader t) \<and> sync_inv t \<and>
     lines_then_terminal idx (main t = M_Returned) evs"

definition engine_inv :: "task_env list \<Rightarrow> engine_state \<Rightarrow> bool" where
  "engine_inv envs s \<longleftrightarrow>
     length (tasks s) = length envs \<and>
     (\<forall>i < length envs. task_inv (int i) (tasks s ! i) (events_of i (outputs s)))"

text \<open>
  The number of transitions a task has left at most, and the same for the whole run (one
  more while the context can still be cancelled).
\<close>

fun main_rank :: "main_pc \<Rightarrow> nat" where
  "main_rank M_Factory = 16"
| "main_rank M_StdoutPipe = 15"
| "main_rank M_StderrPipe = 14"
| "main_rank M_Start = 13"
| "main_rank M_AddStreams = 12"
| "main_rank M_GoStdout = 11"
| "main_rank M_GoStderr = 10"
| "main_rank M_GoWaiter = 9"
| "main_rank M_Select = 8"
| "main_rank M_Cause = 7"
| "main_rank M_Process = 6"
| "main_rank M_GracefulSelect = 5"
| "main_rank M_WaitKilled = 4"
| "main_rank (M_Killed w) = 3"
| "main_rank (M_Graceful w) = 3"
| "main_rank M_WaitExited = 3"
| "main_rank (M_Complete w) = 1"
| "main_rank M_Returned = 0"

fun reader_rank :: "nat \<Rightarrow> reader_pc \<Rightarrow> nat" where
  "reader_rank n R_NotStarted = n + 2"
| "reader_rank n (R_Emitting evs) = length evs + 1"
| "reader_rank n R_Exited = 0"

fun waiter_rank :: "waiter_pc \<Rightarrow> nat" where
  "waiter_rank W_NotStarted = 4"
| "waiter_rank W_WaitStreams = 3"
| "waiter_rank W_WaitCmd = 2"
| "waiter_rank (W_Send w) = 1"
| "waiter_rank W_Exited = 0"

definition task_rank :: "task_env \<Rightarrow> int \<Rightarrow> task_state \<Rightarrow> nat" where
  "task_rank env idx t =
     main_rank (main t) +
     reader_rank (length (frame_stream (stdoutData env) (stdoutReadErr env) idx)) (stdoutReader t) +
     reader_rank (length (frame_stream (stderrData env) (stderrReadErr env) idx)) (stderrReader t) +
     waiter_rank (waiter t)"

definition engine_rank :: "task_env list \<Rightarrow> engine_state \<Rightarrow> nat" where
  "engine_rank envs s =
     (if ctx_cause s = None then 1 else 0) +
     (\<Sum>i < length envs. task_rank (envs ! i) (int i) (tasks s ! i))"

definition run_bound :: "task_env list \<Rightarrow> nat" where
  "run_bound envs = engine_rank envs (Run_init envs)"

section \<open>Example inputs\<close>

text \<open>
  A command that prints \<open>x\<close> on stdout and is killed, and a run in which the context is cancelled with
  the cause \<open>interrupt\<close> while \<open>runProcess\<close> waits, the timer fires before the command
  has exited, and \<open>runProcess\<close> kills it.
\<close>

definition echo_env :: task_env where
  "echo_env = \<lparr>factoryErr = None, stdoutPipeErr = None, stderrPipeErr = None, startErr = None,
     stdoutData = [CHR ''x'', LF], stdoutReadErr = IoEOF, stderrData = [], stderrReadErr = IoEOF,
     waitErr = Some (Plain ''signal: killed''), hasProcess = True, timeoutText = ''5s''\<rparr>"

definition forced_kill_schedule :: "action list" where
  "forced_kill_schedule =
     [Step 0 0, Step 0 0, Step 0 0, Step 0 0, Step 0 0, Step 0 0, Step 0 0, Step 0 0,
      Cancel (Plain ''interrupt''),
      Step 0 0, Step 0 0, Step 0 0, Step 0 0,
      Step 0 1, Step 0 0, Step 0 0, Step 0 0, Step 0 0, Step 0 0,
      Step 0 0, Step 0 0, Step 0 0]"

definition forced_kill_final :: engine_state where
  "forced_kill_final =
     \<lparr>tasks = [\<lparr>main = M_Returned, stdoutReader = R_Exited, stderrReader = R_Exited,
                 waiter = W_Exited, streamsWG = 0, doneChan = None\<rparr>],
      ctx_cause = Some (Plain ''interrupt''),
      outputs =
        [line_of 0 ''[cancellation: interrupt]'',
         line_of 0 ''[sending SIGTERM for graceful shutdown...]'',
         line_of 0 ''[graceful shutdown timeout (5s), force killing...]'',
         line_of 0 ''x'',
         line_of 0 ''[force killed]'',
         complete_of 0 (Some (Plain ''signal: killed''))]\<rparr>"

section \<open>Output buffer: the eviction loop\<close>

lemma byte_total_simps [simp]:
  "byte_total [] = 0"
  "byte_total (l # ls) = int (length l) + byte_total ls"
  "byte_total (xs @ ys) = byte_total xs + byte_total ys"
  by (simp_all add: byte_total_def)

lemma byte_total_nonneg: "0 \<le> byte_total ls"
  by (induction ls) auto

text \<open>Reading a Go \<open>int\<close> after an addition or a subtraction that does not wrap.\<close>

lemma sint_fits: "fits_int (sint (w :: go_int))"
  using sint_range_size[of w] by (simp add: fits_int_def word_size)

lemma sint_word_of_int_fits:
  "fits_int x \<Longrightarrow> sint (word_of_int x :: go_int) = x"
  by (simp add: fits_int_def sint_sbintrunc' signed_take_bit_int_eq_self)

lemma sint_add_nat:
  assumes "fits_int (sint (w :: go_int) + int n)"
  shows "sint (w + of_nat n) = sint w + int n"
proof -
  have "w + of_nat n = word_of_int (sint w + int n)" by simp
  then show ?thesis using assms by (simp only: sint_word_of_int_fits)
qed

lemma sint_sub_nat:
  assumes "fits_int (sint (w :: go_int) - int n)"
  shows "sint (w - of_nat n) = sint w - int n"
proof -
  have "w - of_nat n = word_of_int (sint w - int n)" by simp
  then show ?thesis using assms by (simp only: sint_word_of_int_fits)
qed

text \<open>The loop never panics, keeps every other field, stops on an empty buffer or with
  no cap exceeded, and keeps the byte accounting.\<close>

lemma evict_loop_props:
  "\<exists>ps'. evict_loop ps = Some ps' \<and>
     Err ps' = Err ps \<and> Name ps' = Name ps \<and> MaxLines ps' = MaxLines ps \<and>
     MaxBytes ps' = MaxBytes ps \<and> Done ps' = Done ps \<and> Running ps' = Running ps \<and>
     Dirty ps' = Dirty ps \<and>
     (\<exists>k. Lines ps' = drop k (Lines ps)) \<and>
     (Lines ps' = [] \<or> (\<not> exceedsLineLimit ps' \<and> \<not> exceedsByteLimit ps')) \<and>
     (accounted ps \<longrightarrow> accounted ps')"
proof (induction ps rule: evict_loop.induct)
  case (1 ps)
  show ?case
  proof (cases "(\<not> exceedsLineLimit ps \<and> \<not> exceedsByteLimit ps) \<or> Lines ps = []")
    case True
    then have "evict_loop ps = Some ps"
      by (subst evict_loop.simps) auto
    moreover have "Lines ps = drop 0 (Lines ps)" by simp
    ultimately show ?thesis using True by blast
  next
    case False
    then obtain oldest rest where c: "Lines ps = oldest # rest"
      by (cases "Lines ps") auto
    let ?p = "ps\<lparr>Lines := rest, ByteSize := ByteSize ps - of_nat (length oldest)\<rparr>"
    have e: "evict_loop ps = evict_loop ?p"
      using False c by (subst evict_loop.simps) auto
    have a: "accounted ps \<longrightarrow> accounted ?p"
      using c by (simp add: accounted_def)
    from "1.IH"[of oldest rest] False c obtain ps' k where
      h: "evict_loop ?p = Some ps'"
         "Err ps' = Err ps" "Name ps' = Name ps" "MaxLines ps' = MaxLines ps"
         "MaxBytes ps' = MaxBytes ps" "Done ps' = Done ps" "Running ps' = Running ps"
         "Dirty ps' = Dirty ps"
         "Lines ps' = drop k rest"
         "Lines ps' = [] \<or> (\<not> exceedsLineLimit ps' \<and> \<not> exceedsByteLimit ps')"
         "accounted ?p \<longrightarrow> accounted ps'"
      by auto
    have "Lines ps' = drop (Suc k) (Lines ps)" using h(9) c by simp
    then have "\<exists>k. Lines ps' = drop k (Lines ps)" ..
    then show ?thesis using e h a by simp
  qed
qed

text \<open>While no subtraction wraps, the loop computes the eviction of the specification.\<close>

lemma evict_loop_spec:
  assumes "fits_int (sint (ByteSize ps) - byte_total (Lines ps))"
  shows "evict_loop ps =
     Some (case spec_evict (sint (MaxLines ps)) (sint (MaxBytes ps)) (Lines ps)
                  (sint (ByteSize ps)) of
             (ls, bytes) \<Rightarrow> ps\<lparr>Lines := ls, ByteSize := word_of_int bytes\<rparr>)"
  using assms
proof (induction ps rule: evict_loop.induct)
  case (1 ps)
  show ?case
  proof (cases "Lines ps")
    case Nil
    then show ?thesis
      by (subst evict_loop.simps) simp
  next
    case (Cons oldest rest)
    show ?thesis
    proof (cases "\<not> exceedsLineLimit ps \<and> \<not> exceedsByteLimit ps")
      case True
      then show ?thesis using Cons
        by (subst evict_loop.simps) (auto simp: exceedsLineLimit_def exceedsByteLimit_def)
    next
      case False
      let ?p = "ps\<lparr>Lines := rest, ByteSize := ByteSize ps - of_nat (length oldest)\<rparr>"
      have f: "fits_int (sint (ByteSize ps) - int (length oldest))"
        using "1.prems" Cons sint_fits[of "ByteSize ps"] byte_total_nonneg[of rest]
        by (simp add: fits_int_def)
      have s: "sint (ByteSize ps - of_nat (length oldest)) =
                 sint (ByteSize ps) - int (length oldest)"
        using f by (rule sint_sub_nat)
      have f': "fits_int (sint (ByteSize ?p) - byte_total (Lines ?p))"
      proof -
        have "sint (ByteSize ?p) - byte_total (Lines ?p) =
                sint (ByteSize ps) - byte_total (Lines ps)"
          using Cons s by simp
        then show ?thesis using "1.prems" by simp
      qed
      have "evict_loop ps = evict_loop ?p"
        using False Cons by (subst evict_loop.simps) auto
      also have "\<dots> =
              Some (case spec_evict (sint (MaxLines ps)) (sint (MaxBytes ps)) rest
                           (sint (ByteSize ps) - int (length oldest)) of
                      (ls, bytes) \<Rightarrow> ps\<lparr>Lines := ls, ByteSize := word_of_int bytes\<rparr>)"
        using "1.IH"[OF False _ Cons f'] Cons s by (simp split: prod.splits)
      finally show ?thesis using False Cons
        by (auto simp: exceedsLineLimit_def exceedsByteLimit_def)
    qed
  qed
qed

lemma index_state_in:
  "0 \<le> i \<Longrightarrow> i < int (length states) \<Longrightarrow> index_state states i = Some (states ! nat i)"
  by (simp add: index_state_def)

text \<open>An in-range Line event: the state is replaced by what the loop leaves, marked dirty.\<close>

lemma ApplyEvent_line_in:
  assumes "0 \<le> idx" "idx < int (length states)"
  shows "\<exists>ps'. ApplyEvent states (lineEvent line idx) =
                  Some (states[nat idx := ps'\<lparr>Dirty := True\<rparr>]) \<and>
           evict_loop ((states ! nat idx)\<lparr>Lines := Lines (states ! nat idx) @ [line],
              ByteSize := ByteSize (states ! nat idx) + of_nat (length line)\<rparr>) = Some ps'"
proof -
  let ?p = "(states ! nat idx)\<lparr>Lines := Lines (states ! nat idx) @ [line],
              ByteSize := ByteSize (states ! nat idx) + of_nat (length line)\<rparr>"
  from evict_loop_props[of ?p] obtain ps' where "evict_loop ?p = Some ps'" by blast
  then show ?thesis using assms by (simp add: index_state_in Let_def)
qed

lemma ApplyEvent_line_spec:
  assumes "0 \<le> idx" "idx < int (length states)" "no_wrap (states ! nat idx) line"
  shows "ApplyEvent states (lineEvent line idx) =
           Some (states[nat idx := spec_apply_line (states ! nat idx) line])"
proof -
  let ?ps = "states ! nat idx"
  let ?p = "?ps\<lparr>Lines := Lines ?ps @ [line], ByteSize := ByteSize ?ps + of_nat (length line)\<rparr>"
  have s: "sint (ByteSize ?ps + of_nat (length line)) = sint (ByteSize ?ps) + int (length line)"
    using assms(3) by (intro sint_add_nat) (simp add: no_wrap_def)
  have "fits_int (sint (ByteSize ?p) - byte_total (Lines ?p))"
    using assms(3) s by (simp add: no_wrap_def)
  from evict_loop_spec[OF this] show ?thesis
    using assms(1,2) s
    by (simp add: index_state_in spec_apply_line_def Let_def split: prod.splits)
qed

lemma ApplyEvent_done_in:
  assumes "0 \<le> idx" "idx < int (length states)"
  shows "ApplyEvent states (doneEvent err idx) =
           Some (states[nat idx := (states ! nat idx)\<lparr>Done := True, Running := False,
                                                       Err := err, Dirty := True\<rparr>])"
  using assms by (simp add: index_state_in)

lemma ApplyEvent_out_of_range:
  "event_index ev < 0 \<or> int (length states) \<le> event_index ev \<Longrightarrow>
   ApplyEvent states ev = Some states"
  by (cases ev) auto

lemma byte_total_drop: "byte_total (drop k ls) \<le> byte_total ls"
proof -
  have "byte_total ls = byte_total (take k ls) + byte_total (drop k ls)"
    by (metis append_take_drop_id byte_total_simps(3))
  then show ?thesis using byte_total_nonneg[of "take k ls"] by simp
qed

lemma accounted_sint:
  "accounted ps \<Longrightarrow> byte_total (Lines ps) < 2 ^ 63 \<Longrightarrow>
   sint (ByteSize ps) = byte_total (Lines ps)"
  using byte_total_nonneg[of "Lines ps"]
  by (simp add: accounted_def sint_word_of_int_fits fits_int_def)

lemma accounted_no_wrap:
  assumes "accounted ps" "byte_total (Lines ps) + int (length line) < 2 ^ 63"
  shows "no_wrap ps line"
proof -
  have "byte_total (Lines ps) < 2 ^ 63" using assms(2) by simp
  from accounted_sint[OF assms(1) this] show ?thesis
    using assms(2) byte_total_nonneg[of "Lines ps"] by (simp add: no_wrap_def fits_int_def)
qed

text \<open>Go's \<open>int\<close> wraps, and so does the model: at the largest \<open>int\<close> one more byte
  makes the running byte total the smallest \<open>int\<close>, which exceeds no cap.\<close>

lemma ApplyEvent_byte_total_wraps:
  "ApplyEvent [\<lparr>Err = None, Name = ''p'', Lines = [], ByteSize = 0x7FFFFFFFFFFFFFFF,
                 MaxLines = 0, MaxBytes = 10, Done = False, Running = True, Dirty = True\<rparr>]
     (lineEvent ''a'' 0) =
   Some [\<lparr>Err = None, Name = ''p'', Lines = [''a''], ByteSize = 0x8000000000000000,
           MaxLines = 0, MaxBytes = 10, Done = False, Running = True, Dirty = True\<rparr>] \<and>
   sint (0x8000000000000000 :: go_int) = - (2 ^ 63)"
  by (simp add: index_state_def evict_loop.simps exceedsLineLimit_def exceedsByteLimit_def)

text \<open>One in-range Line event.\<close>

lemma ApplyEvent_line_step:
  assumes "0 \<le> idx" "idx < int (length states)"
  shows "\<exists>ps'. ApplyEvent states (lineEvent line idx) = Some (states[nat idx := ps']) \<and>
           Err ps' = Err (states ! nat idx) \<and> Name ps' = Name (states ! nat idx) \<and>
           MaxLines ps' = MaxLines (states ! nat idx) \<and>
           MaxBytes ps' = MaxBytes (states ! nat idx) \<and>
           Done ps' = Done (states ! nat idx) \<and> Running ps' = Running (states ! nat idx) \<and>
           Dirty ps' = True \<and>
           byte_total (Lines ps') \<le> byte_total (Lines (states ! nat idx)) + int (length line) \<and>
           (0 < sint (MaxLines ps') \<longrightarrow> int (length (Lines ps')) \<le> sint (MaxLines ps')) \<and>
           (accounted (states ! nat idx) \<longrightarrow> accounted ps' \<and> dual_constraint ps')"
proof -
  let ?ps = "states ! nat idx"
  let ?p = "?ps\<lparr>Lines := Lines ?ps @ [line], ByteSize := ByteSize ?ps + of_nat (length line)\<rparr>"
  from ApplyEvent_line_in[OF assms, of line] obtain q where
    q: "ApplyEvent states (lineEvent line idx) = Some (states[nat idx := q\<lparr>Dirty := True\<rparr>])"
       "evict_loop ?p = Some q"
    by blast
  from evict_loop_props[of ?p] q(2) obtain k where
    h: "Err q = Err ?ps" "Name q = Name ?ps" "MaxLines q = MaxLines ?ps"
       "MaxBytes q = MaxBytes ?ps" "Done q = Done ?ps" "Running q = Running ?ps"
       "Lines q = drop k (Lines ?ps @ [line])"
       "Lines q = [] \<or> (\<not> exceedsLineLimit q \<and> \<not> exceedsByteLimit q)"
       "accounted ?p \<longrightarrow> accounted q"
    by auto
  have b: "byte_total (Lines q) \<le> byte_total (Lines ?ps) + int (length line)"
    using byte_total_drop[of k "Lines ?ps @ [line]"] h(7) by simp
  have l: "0 < sint (MaxLines q) \<longrightarrow> int (length (Lines q)) \<le> sint (MaxLines q)"
    using h(8) by (auto simp: exceedsLineLimit_def)
  have a: "accounted ?ps \<longrightarrow> accounted q"
    using h(9) by (simp add: accounted_def)
  have d: "accounted ?ps \<longrightarrow> 0 < sint (MaxBytes q) \<longrightarrow> sint (ByteSize q) \<le> sint (MaxBytes q)"
    using h(8) a by (auto simp: exceedsByteLimit_def accounted_def)
  let ?q = "q\<lparr>Dirty := True\<rparr>"
  have "ApplyEvent states (lineEvent line idx) = Some (states[nat idx := ?q])"
    by (rule q(1))
  moreover have "Err ?q = Err ?ps" "Name ?q = Name ?ps" "MaxLines ?q = MaxLines ?ps"
    "MaxBytes ?q = MaxBytes ?ps" "Done ?q = Done ?ps" "Running ?q = Running ?ps"
    "Dirty ?q = True"
    using h by simp_all
  moreover have "byte_total (Lines ?q) \<le> byte_total (Lines ?ps) + int (length line)"
    using b by simp
  moreover have "0 < sint (MaxLines ?q) \<longrightarrow> int (length (Lines ?q)) \<le> sint (MaxLines ?q)"
    using l by simp
  moreover have "accounted ?ps \<longrightarrow> accounted ?q \<and> dual_constraint ?q"
    using a d l by (simp add: accounted_def dual_constraint_def)
  ultimately show ?thesis by blast
qed

text \<open>A non-empty run of Line events for one in-range index.\<close>

lemma ApplyEvents_lines:
  assumes "0 \<le> idx" "idx < int (length states)" "ls \<noteq> []"
  shows "\<exists>states'. ApplyEvents states (line_events idx ls) = Some states' \<and>
           length states' = length states \<and>
           MaxLines (states' ! nat idx) = MaxLines (states ! nat idx) \<and>
           MaxBytes (states' ! nat idx) = MaxBytes (states ! nat idx) \<and>
           byte_total (Lines (states' ! nat idx)) \<le>
             byte_total (Lines (states ! nat idx)) + byte_total ls \<and>
           (0 < sint (MaxLines (states ! nat idx)) \<longrightarrow>
              int (length (Lines (states' ! nat idx))) \<le> sint (MaxLines (states ! nat idx))) \<and>
           (accounted (states ! nat idx) \<longrightarrow>
              accounted (states' ! nat idx) \<and> dual_constraint (states' ! nat idx))"
  using assms
proof (induction ls arbitrary: states)
  case Nil
  then show ?case by simp
next
  case (Cons l ls)
  have n: "nat idx < length states" using Cons.prems by linarith
  from ApplyEvent_line_step[OF Cons.prems(1,2), of l] obtain ps' where
    p: "ApplyEvent states (lineEvent l idx) = Some (states[nat idx := ps'])"
       "MaxLines ps' = MaxLines (states ! nat idx)"
       "MaxBytes ps' = MaxBytes (states ! nat idx)"
       "byte_total (Lines ps') \<le> byte_total (Lines (states ! nat idx)) + int (length l)"
       "0 < sint (MaxLines ps') \<longrightarrow> int (length (Lines ps')) \<le> sint (MaxLines ps')"
       "accounted (states ! nat idx) \<longrightarrow> accounted ps' \<and> dual_constraint ps'"
    by blast
  let ?s1 = "states[nat idx := ps']"
  have s1: "?s1 ! nat idx = ps'" "length ?s1 = length states" using n by simp_all
  show ?case
  proof (cases "ls = []")
    case True
    then show ?thesis using p s1 by simp
  next
    case False
    have "idx < int (length ?s1)" using Cons.prems by simp
    from Cons.IH[OF Cons.prems(1) this False] obtain states' where
      h: "ApplyEvents ?s1 (line_events idx ls) = Some states'"
         "length states' = length ?s1"
         "MaxLines (states' ! nat idx) = MaxLines (?s1 ! nat idx)"
         "MaxBytes (states' ! nat idx) = MaxBytes (?s1 ! nat idx)"
         "byte_total (Lines (states' ! nat idx)) \<le>
             byte_total (Lines (?s1 ! nat idx)) + byte_total ls"
         "0 < sint (MaxLines (?s1 ! nat idx)) \<longrightarrow>
              int (length (Lines (states' ! nat idx))) \<le> sint (MaxLines (?s1 ! nat idx))"
         "accounted (?s1 ! nat idx) \<longrightarrow>
              accounted (states' ! nat idx) \<and> dual_constraint (states' ! nat idx)"
      by blast
    show ?thesis using h p s1 by simp
  qed
qed

lemma list_all_update:
  "list_all P xs \<Longrightarrow> P x \<Longrightarrow> list_all P (xs[i := x])"
  by (induction xs arbitrary: i) (auto split: nat.splits)

section \<open>Line framer: trimming and scanning\<close>

lemma CR_neq_LF [simp]: "CR \<noteq> LF" "LF \<noteq> CR"
  by (simp_all add: CR_def LF_def)

lemma TrimRight_not_ends:
  "\<not> ends_with_eol (TrimRight s [CR, LF])"
proof -
  have "\<And>xs. dropWhile (\<lambda>c. c \<in> set [CR, LF]) xs = [] \<or>
              hd (dropWhile (\<lambda>c. c \<in> set [CR, LF]) xs) \<notin> set [CR, LF]"
    using hd_dropWhile by blast
  then show ?thesis
    unfolding ends_with_eol_def TrimRight_def
    by (metis (no_types, lifting) last_rev list.set_intros(1) list.set_intros(2) rev_is_Nil_conv)
qed

lemma TrimRight_last:
  "s \<noteq> [] \<Longrightarrow> last s \<notin> set cutset \<Longrightarrow> TrimRight s cutset = s"
proof -
  assume "s \<noteq> []" "last s \<notin> set cutset"
  then have "dropWhile (\<lambda>c. c \<in> set cutset) (rev s) = rev s"
    by (cases s rule: rev_cases) auto
  then show ?thesis by (simp add: TrimRight_def)
qed

lemma TrimRight_clean: "clean s \<Longrightarrow> TrimRight s [CR, LF] = s"
proof -
  assume "clean s"
  then have "rev s = [] \<or> hd (rev s) \<notin> set [CR, LF]"
    by (cases "rev s") (auto simp: clean_def dest: arg_cong[where f=set])
  then have "dropWhile (\<lambda>c. c \<in> set [CR, LF]) (rev s) = rev s"
    by (cases "rev s") auto
  then show ?thesis by (simp add: TrimRight_def)
qed

lemma TrimRight_dropCR: "TrimRight (dropCR s) [CR, LF] = TrimRight s [CR, LF]"
  by (cases s rule: rev_cases) (auto simp: dropCR_def TrimRight_def)

lemma dropCR_clean [simp]: "clean s \<Longrightarrow> dropCR s = s"
proof -
  assume c: "clean s"
  have "\<not> (s \<noteq> [] \<and> last s = CR)"
  proof
    assume "s \<noteq> [] \<and> last s = CR"
    then have "CR \<in> set s" by (metis last_in_set)
    with c show False by (simp add: clean_def)
  qed
  then show ?thesis by (auto simp: dropCR_def)
qed

lemma dropCR_snoc_CR [simp]: "dropCR (s @ [CR]) = s"
  by (simp add: dropCR_def)

lemma clean_snoc: "clean s \<Longrightarrow> c \<noteq> CR \<Longrightarrow> c \<noteq> LF \<Longrightarrow> clean (s @ [c])"
  by (auto simp: clean_def)

lemma clean_Nil [simp]: "clean []"
  by (simp add: clean_def)

text \<open>
  On input without a lone \<open>\r\<close>, the scanner's tokens, trimmed, are the lines of
  \<open>spec_frame\<close>.
\<close>

lemma ScanLines_run_spec_frame:
  "clean acc \<Longrightarrow> no_lone_CR cs \<Longrightarrow> ScanLines_run maxTok acc cs = (toks, False) \<Longrightarrow>
   map (\<lambda>text. TrimRight text [CR, LF]) toks = spec_frame acc cs"
proof (induction acc cs arbitrary: toks rule: spec_frame.induct)
  case (1 acc)
  then show ?case by (auto simp: TrimRight_clean)
next
  case (2 acc c)
  then show ?case
    by (auto simp: TrimRight_clean clean_snoc split: if_splits prod.splits)
next
  case (3 acc c d cs)
  show ?case
  proof (cases "c = CR")
    case True
    with "3.prems" have d: "d = LF" by simp
    from "3.prems" True d obtain toks' where
      t: "ScanLines_run maxTok [] cs = (toks', False)" "toks = acc # toks'"
      by (auto split: if_splits prod.splits)
    have "no_lone_CR cs" using "3.prems"(2) by (cases cs) auto
    from "3.IH"(1)[OF _ clean_Nil this t(1)] True d
    have "map (\<lambda>text. TrimRight text [CR, LF]) toks' = spec_frame [] cs" by simp
    then show ?thesis using True d t "3.prems"(1) by (simp add: TrimRight_clean)
  next
    case False
    note nCR = False
    show ?thesis
    proof (cases "c = LF")
      case True
      from "3.prems" True obtain toks' where
        t: "ScanLines_run maxTok [] (d # cs) = (toks', False)" "toks = dropCR acc # toks'"
        by (auto split: if_splits prod.splits)
      have "no_lone_CR (d # cs)" using "3.prems"(2) by simp
      from "3.IH"(2)[OF _ _ clean_Nil this t(1)] True nCR
      have "map (\<lambda>text. TrimRight text [CR, LF]) toks' = spec_frame [] (d # cs)" by simp
      then show ?thesis using True t "3.prems"(1) by (simp add: TrimRight_clean)
    next
      case False
      from "3.prems" False nCR have
        t: "ScanLines_run maxTok (acc @ [c]) (d # cs) = (toks, False)"
        by (auto split: if_splits)
      have "no_lone_CR (d # cs)" using "3.prems"(2) by simp
      from "3.IH"(3)[OF _ _ clean_snoc[OF "3.prems"(1) nCR False] this t] False nCR
      show ?thesis by simp
    qed
  qed
qed

lemma LF_lines_no_LF:
  "LF \<notin> set acc \<Longrightarrow> list_all (\<lambda>p. LF \<notin> set p) (LF_lines acc data)"
  by (induction data arbitrary: acc) auto

lemma LF_lines_concat:
  "concat (map (\<lambda>p. p @ [LF]) (LF_lines acc data)) =
     (if acc @ data = [] \<or> last (acc @ data) = LF \<and> data \<noteq> [] then acc @ data
      else acc @ data @ [LF])"
proof (induction data arbitrary: acc)
  case Nil
  then show ?case by simp
next
  case (Cons c cs)
  show ?case
  proof (cases "c = LF")
    case True
    then show ?thesis using Cons.IH[of "[]"] by (cases "cs = []") auto
  next
    case False
    then show ?thesis using Cons.IH[of "acc @ [c]"] by (cases "cs = []") auto
  qed
qed

lemma LF_lines_head:
  "acc \<noteq> [] \<Longrightarrow> \<exists>p ps. LF_lines acc data = p # ps \<and> length acc \<le> length p"
proof (induction data arbitrary: acc)
  case Nil
  then show ?case by simp
next
  case (Cons c cs)
  show ?case
  proof (cases "c = LF")
    case True
    then show ?thesis by simp
  next
    case False
    from Cons.IH[of "acc @ [c]"] obtain p ps where
      "LF_lines (acc @ [c]) cs = p # ps" "length (acc @ [c]) \<le> length p" by auto
    then show ?thesis using False by simp
  qed
qed

text \<open>When every line fits the buffer, the scanner's tokens are the lines that \<open>\n\<close>
  delimits, each without one \<open>\r\<close> at its end.\<close>

lemma ScanLines_run_LF_lines:
  "list_all (\<lambda>p. length p < maxTok) (LF_lines acc data) \<Longrightarrow>
   ScanLines_run maxTok acc data = (map dropCR (LF_lines acc data), False)"
proof (induction data arbitrary: acc)
  case Nil
  then show ?case by simp
next
  case (Cons c cs)
  show ?case
  proof (cases "c = LF")
    case True
    then show ?thesis using Cons.prems Cons.IH[of "[]"] by simp
  next
    case False
    from LF_lines_head[of "acc @ [c]" cs] obtain p ps where
      p: "LF_lines (acc @ [c]) cs = p # ps" "length (acc @ [c]) \<le> length p" by auto
    have "length p < maxTok" using Cons.prems False p(1) by simp
    then have "\<not> maxTok \<le> length acc + 1" using p(2) by simp
    then show ?thesis using False Cons.prems Cons.IH[of "acc @ [c]"] by simp
  qed
qed

lemma TrimRight_only_CR:
  assumes "LF \<notin> set p"
  shows "\<exists>k. p = TrimRight p [CR, LF] @ replicate k CR"
proof -
  let ?P = "\<lambda>c. c \<in> set [CR, LF]"
  let ?t = "takeWhile ?P (rev p)"
  have "rev p = ?t @ dropWhile ?P (rev p)" by simp
  then have "p = rev (dropWhile ?P (rev p)) @ rev ?t"
    by (metis rev_append rev_rev_ident)
  moreover have "\<forall>y \<in> set (rev ?t). y = CR"
  proof
    fix y assume "y \<in> set (rev ?t)"
    then have y: "y \<in> set ?t" by simp
    then have "?P y" by (rule set_takeWhileD[THEN conjunct2])
    moreover have "y \<in> set p" using y set_takeWhileD[of y ?P "rev p"] by simp
    ultimately show "y = CR" using assms by auto
  qed
  then have "replicate (length (rev ?t)) CR = rev ?t" by (rule replicate_length_same)
  ultimately have "p = TrimRight p [CR, LF] @ replicate (length (rev ?t)) CR"
    by (simp add: TrimRight_def)
  then show ?thesis ..
qed

lemma frame_stream_LF_lines:
  assumes "lines_fit data"
  shows "frame_stream data readErr idx =
           map (\<lambda>p. line_of idx (TrimRight p [CR, LF])) (LF_lines [] data) @
           (if errors_Is readErr IoEOF then [] else [stream_error_line idx readErr])"
proof -
  have s: "ScanLines_run scannerMaxBufferSize [] data = (map dropCR (LF_lines [] data), False)"
    using assms by (intro ScanLines_run_LF_lines) (simp add: lines_fit_def)
  show ?thesis
    by (cases "readErr = IoEOF")
       (simp_all add: frame_stream_def Scanner_run_def s streamReader_def TrimRight_dropCR comp_def)
qed

lemma Scanner_run_read_error:
  assumes "\<not> errors_Is err IoEOF"
  shows "Scanner_run data err =
           (fst (ScanLines_run scannerMaxBufferSize [] data),
            Some (if snd (ScanLines_run scannerMaxBufferSize [] data) then ErrTooLong else err))"
proof -
  have "err \<noteq> IoEOF" using assms by auto
  then show ?thesis
    by (cases "ScanLines_run scannerMaxBufferSize [] data") (simp add: Scanner_run_def)
qed

lemma stream_error_line_not_eol: "\<not> ends_with_eol (pl_Line (stream_error_line idx err))"
  by (simp add: stream_error_line_def line_of_def ends_with_eol_def CR_def LF_def)

lemma streamReader_no_eol:
  "list_all (\<lambda>ev. \<not> ends_with_eol (pl_Line ev)) (streamReader tokens scanErr idx)"
  by (auto simp: streamReader_def list_all_iff line_of_def TrimRight_not_ends
        stream_error_line_not_eol split: option.splits)

lemma streamReader_lines_only:
  "list_all (\<lambda>ev. \<not> pl_IsComplete ev \<and> pl_Err ev = None \<and> pl_Index ev = idx)
     (streamReader tokens scanErr idx)"
  by (auto simp: streamReader_def list_all_iff line_of_def stream_error_line_def
        split: option.splits)

section \<open>Process task: the invariant\<close>

lemma frame_stream_lines: "list_all (is_line idx) (frame_stream data readErr idx)"
  using streamReader_lines_only
  by (auto simp: frame_stream_def is_line_def list_all_iff split: prod.splits)

lemma is_line_line_of [simp]: "is_line idx (line_of idx text)"
  by (simp add: is_line_def line_of_def)

lemma complete_of_simps [simp]:
  "pl_IsComplete (complete_of idx err)" "pl_Index (complete_of idx err) = idx"
  "pl_Err (complete_of idx err) = err"
  by (simp_all add: complete_of_def)

lemma lines_then_terminal_line:
  "lines_then_terminal idx False evs \<Longrightarrow> is_line idx e \<Longrightarrow>
   lines_then_terminal idx False (evs @ [e])"
  by (simp add: lines_then_terminal_def)

lemma lines_then_terminal_complete:
  "lines_then_terminal idx False evs \<Longrightarrow> pl_IsComplete e \<Longrightarrow> pl_Index e = idx \<Longrightarrow>
   lines_then_terminal idx True (evs @ [e])"
  by (simp add: lines_then_terminal_def)

lemma lines_then_terminal_count:
  "lines_then_terminal idx returned evs \<Longrightarrow>
   length (filter pl_IsComplete evs) = (if returned then 1 else 0)"
proof (cases returned)
  case False
  assume "lines_then_terminal idx returned evs"
  with False have "\<forall>e \<in> set evs. \<not> pl_IsComplete e"
    by (simp add: lines_then_terminal_def list_all_iff is_line_def)
  then have "filter pl_IsComplete evs = []" by (simp add: filter_empty_conv)
  then show ?thesis using False by simp
next
  case True
  assume "lines_then_terminal idx returned evs"
  with True have h: "evs \<noteq> []" "\<forall>e \<in> set (butlast evs). \<not> pl_IsComplete e"
      "pl_IsComplete (last evs)"
    by (simp_all add: lines_then_terminal_def list_all_iff is_line_def)
  have "evs = butlast evs @ [last evs]" using h(1) by simp
  then have "filter pl_IsComplete evs =
               filter pl_IsComplete (butlast evs) @ filter pl_IsComplete [last evs]"
    by (metis filter_append)
  moreover have "filter pl_IsComplete (butlast evs) = []"
    using h(2) by (simp add: filter_empty_conv)
  ultimately show ?thesis using h(3) True by simp
qed

lemma pending_sum_zero [simp]:
  "pending a + pending b = 0 \<longleftrightarrow> a = R_Exited \<and> b = R_Exited"
  by (cases a; cases b) simp_all

lemma pending_nonneg [simp]: "0 \<le> pending a"
  by (cases a) simp_all

lemma pending_succ_nonzero [simp]: "1 + pending a \<noteq> 0" "pending a + 1 \<noteq> 0"
  using pending_nonneg[of a] by linarith+

lemma stage_finished [simp]: "main_stage m = S_Finished \<longleftrightarrow> m = M_Returned"
  by (cases m) simp_all

text \<open>Every transition of every goroutine keeps the invariant.\<close>

lemma main_next_inv:
  assumes "task_inv idx t evs" and "(ev, t') \<in> set (main_next env idx ctx t)"
  shows "task_inv idx t' (evs @ emitted ev)"
  using assms
  by (cases "main t")
     (auto simp: main_next_def task_inv_def sync_inv_def fail_with_def emitted_def receive_done_def
          lines_then_terminal_complete lines_then_terminal_line frame_stream_lines
          split: option.splits if_splits)

lemma stdout_next_inv:
  assumes "task_inv idx t evs" and "(ev, t') \<in> set (stdout_next t)"
  shows "task_inv idx t' (evs @ emitted ev)"
proof (cases "stdoutReader t")
  case R_NotStarted
  then show ?thesis using assms by (simp add: stdout_next_def)
next
  case R_Exited
  then show ?thesis using assms by (simp add: stdout_next_def)
next
  case (R_Emitting pend)
  show ?thesis
  proof (cases pend)
    case Nil
    then have t': "t' = t\<lparr>stdoutReader := R_Exited, streamsWG := streamsWG t - 1\<rparr>" "ev = None"
      using assms(2) R_Emitting by (simp_all add: stdout_next_def)
    show ?thesis using assms(1) R_Emitting unfolding t'
      by (cases "main_stage (main t)")
         (auto simp: task_inv_def sync_inv_def emitted_def lines_then_terminal_def)
  next
    case (Cons e rest)
    then have t': "t' = t\<lparr>stdoutReader := R_Emitting rest\<rparr>" "ev = Some e"
      using assms(2) R_Emitting by (simp_all add: stdout_next_def)
    show ?thesis using assms(1) R_Emitting Cons unfolding t'
      by (cases "main_stage (main t)")
         (auto simp: task_inv_def sync_inv_def emitted_def lines_then_terminal_def)
  qed
qed

lemma stderr_next_inv:
  assumes "task_inv idx t evs" and "(ev, t') \<in> set (stderr_next t)"
  shows "task_inv idx t' (evs @ emitted ev)"
proof (cases "stderrReader t")
  case R_NotStarted
  then show ?thesis using assms by (simp add: stderr_next_def)
next
  case R_Exited
  then show ?thesis using assms by (simp add: stderr_next_def)
next
  case (R_Emitting pend)
  show ?thesis
  proof (cases pend)
    case Nil
    then have t': "t' = t\<lparr>stderrReader := R_Exited, streamsWG := streamsWG t - 1\<rparr>" "ev = None"
      using assms(2) R_Emitting by (simp_all add: stderr_next_def)
    show ?thesis using assms(1) R_Emitting unfolding t'
      by (cases "main_stage (main t)")
         (auto simp: task_inv_def sync_inv_def emitted_def lines_then_terminal_def)
  next
    case (Cons e rest)
    then have t': "t' = t\<lparr>stderrReader := R_Emitting rest\<rparr>" "ev = Some e"
      using assms(2) R_Emitting by (simp_all add: stderr_next_def)
    show ?thesis using assms(1) R_Emitting Cons unfolding t'
      by (cases "main_stage (main t)")
         (auto simp: task_inv_def sync_inv_def emitted_def lines_then_terminal_def)
  qed
qed

lemma waiter_next_inv:
  assumes "task_inv idx t evs" and "(ev, t') \<in> set (waiter_next env t)"
  shows "task_inv idx t' (evs @ emitted ev)"
proof -
  have ev: "ev = None"
    using assms(2) by (auto simp: waiter_next_def split: waiter_pc.splits if_splits option.splits)
  show ?thesis
    using assms unfolding ev
    by (cases "waiter t"; cases "main_stage (main t)")
       (auto simp: waiter_next_def task_inv_def sync_inv_def emitted_def
             split: if_splits option.splits)
qed

lemma task_next_inv:
  assumes "task_inv idx t evs" and "(ev, t') \<in> set (task_next env idx ctx t)"
  shows "task_inv idx t' (evs @ emitted ev)"
proof -
  from assms(2) consider
      "(ev, t') \<in> set (main_next env idx ctx t)"
    | "(ev, t') \<in> set (stdout_next t)"
    | "(ev, t') \<in> set (stderr_next t)"
    | "(ev, t') \<in> set (waiter_next env t)"
    by (auto simp: task_next_def)
  then show ?thesis
  proof cases
    case 1 then show ?thesis using assms(1) by (rule main_next_inv[rotated])
  next
    case 2 then show ?thesis using assms(1) by (rule stdout_next_inv[rotated])
  next
    case 3 then show ?thesis using assms(1) by (rule stderr_next_inv[rotated])
  next
    case 4 then show ?thesis using assms(1) by (rule waiter_next_inv[rotated])
  qed
qed

lemma task_init_inv: "task_inv idx task_init []"
  by (simp add: task_inv_def task_init_def sync_inv_def lines_then_terminal_def)

lemma task_next_index:
  assumes "task_inv idx t evs" and "(Some e, t') \<in> set (task_next env idx ctx t)"
  shows "pl_Index e = idx"
proof -
  from assms(2) consider
      "(Some e, t') \<in> set (main_next env idx ctx t)"
    | "(Some e, t') \<in> set (stdout_next t)"
    | "(Some e, t') \<in> set (stderr_next t)"
    | "(Some e, t') \<in> set (waiter_next env t)"
    by (auto simp: task_next_def)
  then show ?thesis
  proof cases
    case 1
    then show ?thesis
      by (cases "main t")
         (auto simp: main_next_def fail_with_def receive_done_def line_of_def
               split: option.splits if_splits)
  next
    case 2
    then show ?thesis using assms(1)
      by (cases "stdoutReader t"; cases "case stdoutReader t of R_Emitting evs \<Rightarrow> evs | _ \<Rightarrow> []")
         (auto simp: stdout_next_def task_inv_def is_line_def)
  next
    case 3
    then show ?thesis using assms(1)
      by (cases "stderrReader t"; cases "case stderrReader t of R_Emitting evs \<Rightarrow> evs | _ \<Rightarrow> []")
         (auto simp: stderr_next_def task_inv_def is_line_def)
  next
    case 4
    then show ?thesis
      by (auto simp: waiter_next_def split: waiter_pc.splits if_splits option.splits)
  qed
qed

lemma events_of_append [simp]: "events_of i (xs @ ys) = events_of i xs @ events_of i ys"
  by (simp add: events_of_def)

lemma Run_init_inv: "engine_inv envs (Run_init envs)"
  by (simp add: engine_inv_def Run_init_def task_init_inv events_of_def)

lemma engine_step_Step:
  assumes "engine_inv envs s" and "engine_step envs (Step i k) s = Some s'"
  shows "\<exists>ev t'. i < length envs \<and>
           (ev, t') \<in> set (task_next (envs ! i) (int i) (ctx_cause s) (tasks s ! i)) \<and>
           s' = s\<lparr>tasks := (tasks s)[i := t'], outputs := outputs s @ emitted ev\<rparr> \<and>
           (\<forall>j. j \<noteq> i \<longrightarrow> events_of j (emitted ev) = [])"
proof -
  let ?alts = "task_next (envs ! i) (int i) (ctx_cause s) (tasks s ! i)"
  from assms(2) have b: "i < length envs" "i < length (tasks s)" "k < length ?alts"
    by (auto split: if_splits)
  obtain ev t' where alt: "?alts ! k = (ev, t')" by (cases "?alts ! k")
  then have mem: "(ev, t') \<in> set ?alts" using b(3) by (metis nth_mem)
  have s': "s' = s\<lparr>tasks := (tasks s)[i := t'], outputs := outputs s @ emitted ev\<rparr>"
    using assms(2) b alt by simp
  have inv_i: "task_inv (int i) (tasks s ! i) (events_of i (outputs s))"
    using assms(1) b(1) by (simp add: engine_inv_def)
  have "events_of j (emitted ev) = []" if "j \<noteq> i" for j
  proof (cases ev)
    case None then show ?thesis by (simp add: emitted_def events_of_def)
  next
    case (Some e)
    with mem have "pl_Index e = int i" using task_next_index[OF inv_i] by blast
    then show ?thesis using Some that by (simp add: emitted_def events_of_def)
  qed
  then show ?thesis using b(1) mem s' by blast
qed

lemma engine_step_inv:
  assumes "engine_inv envs s" and "engine_step envs a s = Some s'"
  shows "engine_inv envs s'"
proof (cases a)
  case (Cancel cause)
  then show ?thesis using assms by (auto simp: engine_inv_def split: if_splits)
next
  case (Step i k)
  let ?alts = "task_next (envs ! i) (int i) (ctx_cause s) (tasks s ! i)"
  from assms(2) Step have b: "i < length envs" "i < length (tasks s)" "k < length ?alts"
    by (auto split: if_splits)
  obtain ev t' where alt: "?alts ! k = (ev, t')" by (cases "?alts ! k")
  then have mem: "(ev, t') \<in> set ?alts" using b(3) by (metis nth_mem)
  have s': "s' = s\<lparr>tasks := (tasks s)[i := t'], outputs := outputs s @ emitted ev\<rparr>"
    using assms(2) Step b alt by simp
  have inv_i: "task_inv (int i) (tasks s ! i) (events_of i (outputs s))"
    using assms(1) b(1) by (simp add: engine_inv_def)
  have own: "events_of i (emitted ev) = emitted ev"
  proof (cases ev)
    case None then show ?thesis by (simp add: emitted_def events_of_def)
  next
    case (Some e)
    with mem have "pl_Index e = int i" using task_next_index[OF inv_i] by blast
    then show ?thesis using Some by (simp add: emitted_def events_of_def)
  qed
  have other: "events_of j (emitted ev) = []" if "j \<noteq> i" for j
  proof (cases ev)
    case None then show ?thesis by (simp add: emitted_def events_of_def)
  next
    case (Some e)
    with mem have "pl_Index e = int i" using task_next_index[OF inv_i] by blast
    then show ?thesis using Some that by (simp add: emitted_def events_of_def)
  qed
  have new_i: "task_inv (int i) t' (events_of i (outputs s) @ emitted ev)"
    using task_next_inv[OF inv_i mem] .
  show ?thesis
    unfolding engine_inv_def
  proof (intro conjI allI impI)
    show "length (tasks s') = length envs"
      using assms(1) s' by (simp add: engine_inv_def)
  next
    fix j assume j: "j < length envs"
    show "task_inv (int j) (tasks s' ! j) (events_of j (outputs s'))"
    proof (cases "j = i")
      case True
      then show ?thesis using new_i s' b own by simp
    next
      case False
      then show ?thesis using assms(1) j s' other[OF False] by (simp add: engine_inv_def)
    qed
  qed
qed

lemma engine_run_inv:
  "engine_inv envs s \<Longrightarrow> engine_run envs sched s = Some s' \<Longrightarrow> engine_inv envs s'"
proof (induction sched arbitrary: s)
  case Nil
  then show ?case by simp
next
  case (Cons a sched)
  then show ?case
    by (auto split: option.splits dest: engine_step_inv)
qed

text \<open>A task that has returned has no transition left.\<close>

lemma returned_quiescent:
  assumes "task_inv idx t evs" and "main t = M_Returned"
  shows "task_next env idx ctx t = []"
  using assms
  by (auto simp: task_inv_def sync_inv_def task_next_def main_next_def stdout_next_def
        stderr_next_def waiter_next_def)

text \<open>A task that has not returned can take a step.\<close>

lemma not_returned_enabled:
  assumes "task_inv idx t evs" and "main t \<noteq> M_Returned"
  shows "task_next env idx ctx t \<noteq> []"
proof (cases "main_next env idx ctx t = []")
  case False
  then show ?thesis by (simp add: task_next_def)
next
  case True
  then have waiting: "main_stage (main t) = S_Running" "doneChan t = None"
    using assms(2)
    by (cases "main t";
        auto simp: main_next_def fail_with_def receive_done_def split: option.splits if_splits)+
  then have sync: "stdoutReader t \<noteq> R_NotStarted" "stderrReader t \<noteq> R_NotStarted"
      "waiter t \<noteq> W_NotStarted" "waiter t \<noteq> W_Exited"
      "streamsWG t = pending (stdoutReader t) + pending (stderrReader t)"
    using assms(1) by (auto simp: task_inv_def sync_inv_def)
  show ?thesis
  proof (cases "stdoutReader t = R_Exited \<and> stderrReader t = R_Exited")
    case True
    then have "waiter_next env t \<noteq> []"
      using sync waiting by (cases "waiter t") (auto simp: waiter_next_def)
    then show ?thesis by (simp add: task_next_def)
  next
    case False
    then have "stdout_next t \<noteq> [] \<or> stderr_next t \<noteq> []"
      using sync
      by (cases "stdoutReader t"; cases "stderrReader t")
         (auto simp: stdout_next_def stderr_next_def split: list.splits)
    then show ?thesis by (auto simp: task_next_def)
  qed
qed

text \<open>Every step uses up one of the steps that are left.\<close>

lemma main_next_rank:
  assumes "(ev, t') \<in> set (main_next env idx ctx t)" and "task_inv idx t evs"
  shows "task_rank env idx t' < task_rank env idx t"
  using assms
  by (cases "main t")
     (auto simp: main_next_def fail_with_def receive_done_def task_rank_def task_inv_def
           sync_inv_def split: option.splits if_splits)

lemma stdout_next_rank:
  assumes "(ev, t') \<in> set (stdout_next t)"
  shows "task_rank env idx t' < task_rank env idx t"
  using assms
  by (cases "stdoutReader t"; cases "case stdoutReader t of R_Emitting evs \<Rightarrow> evs | _ \<Rightarrow> []")
     (auto simp: stdout_next_def task_rank_def)

lemma stderr_next_rank:
  assumes "(ev, t') \<in> set (stderr_next t)"
  shows "task_rank env idx t' < task_rank env idx t"
  using assms
  by (cases "stderrReader t"; cases "case stderrReader t of R_Emitting evs \<Rightarrow> evs | _ \<Rightarrow> []")
     (auto simp: stderr_next_def task_rank_def)

lemma waiter_next_rank:
  assumes "(ev, t') \<in> set (waiter_next env t)"
  shows "task_rank env idx t' < task_rank env idx t"
  using assms
  by (cases "waiter t")
     (auto simp: waiter_next_def task_rank_def split: if_splits option.splits)

lemma task_next_rank:
  assumes "(ev, t') \<in> set (task_next env idx ctx t)" and "task_inv idx t evs"
  shows "task_rank env idx t' < task_rank env idx t"
  using assms main_next_rank stdout_next_rank stderr_next_rank waiter_next_rank
  by (auto simp: task_next_def)

lemma engine_step_rank:
  assumes "engine_inv envs s" and "engine_step envs a s = Some s'"
  shows "engine_rank envs s' < engine_rank envs s"
proof (cases a)
  case (Cancel cause)
  then show ?thesis using assms(2) by (auto simp: engine_rank_def split: if_splits)
next
  case (Step i k)
  from engine_step_Step[OF assms(1) assms(2)[unfolded Step]] obtain ev t' where
    h: "i < length envs"
       "(ev, t') \<in> set (task_next (envs ! i) (int i) (ctx_cause s) (tasks s ! i))"
       "s' = s\<lparr>tasks := (tasks s)[i := t'], outputs := outputs s @ emitted ev\<rparr>"
    by blast
  have len: "length (tasks s) = length envs" using assms(1) by (simp add: engine_inv_def)
  have inv_i: "task_inv (int i) (tasks s ! i) (events_of i (outputs s))"
    using assms(1) h(1) by (simp add: engine_inv_def)
  have lt: "task_rank (envs ! i) (int i) t' < task_rank (envs ! i) (int i) (tasks s ! i)"
    using task_next_rank[OF h(2) inv_i] .
  have "(\<Sum>j < length envs. task_rank (envs ! j) (int j) (tasks s' ! j)) <
        (\<Sum>j < length envs. task_rank (envs ! j) (int j) (tasks s ! j))"
  proof (rule sum_strict_mono_ex1)
    show "finite {..<length envs}" by simp
    show "\<forall>j\<in>{..<length envs}. task_rank (envs ! j) (int j) (tasks s' ! j)
              \<le> task_rank (envs ! j) (int j) (tasks s ! j)"
    proof
      fix j assume "j \<in> {..<length envs}"
      then show "task_rank (envs ! j) (int j) (tasks s' ! j)
                   \<le> task_rank (envs ! j) (int j) (tasks s ! j)"
        using lt h(3) len by (cases "j = i") simp_all
    qed
    show "\<exists>j\<in>{..<length envs}. task_rank (envs ! j) (int j) (tasks s' ! j)
              < task_rank (envs ! j) (int j) (tasks s ! j)"
      using lt h(1,3) len by (intro bexI[of _ i]) auto
  qed
  then show ?thesis using h(3) by (simp add: engine_rank_def)
qed

lemma engine_run_rank:
  "engine_inv envs s \<Longrightarrow> engine_run envs sched s = Some s' \<Longrightarrow>
   length sched + engine_rank envs s' \<le> engine_rank envs s"
proof (induction sched arbitrary: s)
  case Nil
  then show ?case by simp
next
  case (Cons a sched)
  from Cons.prems(2) obtain s1 where
    s1: "engine_step envs a s = Some s1" "engine_run envs sched s1 = Some s'"
    by (auto split: option.splits)
  have "engine_inv envs s1" using engine_step_inv[OF Cons.prems(1) s1(1)] .
  from Cons.IH[OF this s1(2)] engine_step_rank[OF Cons.prems(1) s1(1)]
  show ?case by simp
qed

text \<open>After \<open>runProcess\<close> has returned, no step of the run adds an event with its index.\<close>

lemma returned_stays:
  "engine_inv envs s \<Longrightarrow> i < length envs \<Longrightarrow> main (tasks s ! i) = M_Returned \<Longrightarrow>
   engine_run envs rest s = Some s' \<Longrightarrow>
   tasks s' ! i = tasks s ! i \<and> events_of i (outputs s') = events_of i (outputs s)"
proof (induction rest arbitrary: s)
  case Nil
  then show ?case by simp
next
  case (Cons a rest)
  from Cons.prems(4) obtain s1 where
    s1: "engine_step envs a s = Some s1" "engine_run envs rest s1 = Some s'"
    by (auto split: option.splits)
  have inv1: "engine_inv envs s1" using engine_step_inv[OF Cons.prems(1) s1(1)] .
  have inv_i: "task_inv (int i) (tasks s ! i) (events_of i (outputs s))"
    using Cons.prems(1,2) by (simp add: engine_inv_def)
  have same: "tasks s1 ! i = tasks s ! i \<and> events_of i (outputs s1) = events_of i (outputs s)"
  proof (cases a)
    case (Cancel cause)
    then show ?thesis using s1(1) by (auto split: if_splits)
  next
    case (Step j k)
    from engine_step_Step[OF Cons.prems(1) s1(1)[unfolded Step]] obtain ev t' where
      h: "j < length envs"
         "(ev, t') \<in> set (task_next (envs ! j) (int j) (ctx_cause s) (tasks s ! j))"
         "s1 = s\<lparr>tasks := (tasks s)[j := t'], outputs := outputs s @ emitted ev\<rparr>"
         "\<forall>j'. j' \<noteq> j \<longrightarrow> events_of j' (emitted ev) = []"
      by blast
    have "j \<noteq> i"
      using h(2) returned_quiescent[OF inv_i Cons.prems(3)] by auto
    then show ?thesis using h(3,4) by simp
  qed
  with Cons.IH[OF inv1 Cons.prems(2) _ s1(2)] Cons.prems(3)
  show ?case by simp
qed

text \<open>The example run.\<close>

lemma frame_echo_stdout:
  "frame_stream [CHR ''x'', LF] IoEOF 0 = [line_of 0 ''x'']"
  by (simp add: frame_stream_def Scanner_run_def scannerMaxBufferSize_def streamReader_def
        dropCR_def TrimRight_def CR_def LF_def)

lemma frame_echo_stderr:
  "frame_stream [] IoEOF 0 = []"
  by (simp add: frame_stream_def Scanner_run_def streamReader_def)

lemma forced_kill_run:
  "engine_run [echo_env] forced_kill_schedule (Run_init [echo_env]) = Some forced_kill_final"
  by (simp add: forced_kill_schedule_def forced_kill_final_def Run_init_def echo_env_def
        task_init_def task_next_def main_next_def stdout_next_def stderr_next_def
        waiter_next_def receive_done_def fail_with_def emitted_def
        frame_echo_stdout frame_echo_stderr)

section \<open>Claims\<close>

text \<open>
  Claim C1. Line events for one in-range index are applied in sequence. After each
  application (after the first \<open>n\<close> lines, for every \<open>n\<close> from 1 to the length of
  the sequence) the caps are what they were, and a positive line cap bounds the number of
  retained lines. The running byte total of a buffer is the byte total of its lines
  (\<open>accounted\<close>: so it is in the initial state, and so every event leaves it): after each
  application it still is, both bounds of the dual constraint hold together, and a
  positive byte cap bounds the running byte total; it bounds the sum of the byte lengths
  of the retained lines too, the lines of the buffer and of the sequence having fewer than
  \<open>2^63\<close> bytes, as lines in memory have.
\<close>

theorem C1_dual_constraint_after_lines:
  assumes "0 \<le> idx" and "idx < int (length states)" and "0 < n" and "n \<le> length ls"
  shows "\<exists>states'. ApplyEvents states (line_events idx (take n ls)) = Some states' \<and>
           MaxLines (states' ! nat idx) = MaxLines (states ! nat idx) \<and>
           MaxBytes (states' ! nat idx) = MaxBytes (states ! nat idx) \<and>
           (0 < sint (MaxLines (states ! nat idx)) \<longrightarrow>
              int (length (Lines (states' ! nat idx))) \<le> sint (MaxLines (states ! nat idx))) \<and>
           (accounted (states ! nat idx) \<longrightarrow>
              accounted (states' ! nat idx) \<and>
              dual_constraint (states' ! nat idx) \<and>
              (0 < sint (MaxBytes (states ! nat idx)) \<longrightarrow>
                 sint (ByteSize (states' ! nat idx)) \<le> sint (MaxBytes (states ! nat idx)))) \<and>
           (accounted (states ! nat idx) \<and>
            byte_total (Lines (states ! nat idx)) + byte_total (take n ls) < 2 ^ 63 \<longrightarrow>
              sint (ByteSize (states' ! nat idx)) = byte_total (Lines (states' ! nat idx)) \<and>
              (0 < sint (MaxBytes (states ! nat idx)) \<longrightarrow>
                 byte_total (Lines (states' ! nat idx)) \<le> sint (MaxBytes (states ! nat idx))))"
proof -
  have "take n ls \<noteq> []" using assms(3,4) by auto
  from ApplyEvents_lines[OF assms(1,2) this] obtain states' where
    h: "ApplyEvents states (line_events idx (take n ls)) = Some states'"
       "MaxLines (states' ! nat idx) = MaxLines (states ! nat idx)"
       "MaxBytes (states' ! nat idx) = MaxBytes (states ! nat idx)"
       "byte_total (Lines (states' ! nat idx)) \<le>
             byte_total (Lines (states ! nat idx)) + byte_total (take n ls)"
       "0 < sint (MaxLines (states ! nat idx)) \<longrightarrow>
              int (length (Lines (states' ! nat idx))) \<le> sint (MaxLines (states ! nat idx))"
       "accounted (states ! nat idx) \<longrightarrow>
              accounted (states' ! nat idx) \<and> dual_constraint (states' ! nat idx)"
    by blast
  have s: "accounted (states ! nat idx) \<and>
           byte_total (Lines (states ! nat idx)) + byte_total (take n ls) < 2 ^ 63 \<longrightarrow>
           sint (ByteSize (states' ! nat idx)) = byte_total (Lines (states' ! nat idx))"
    using h(4,6) by (auto intro!: accounted_sint)
  show ?thesis
    using h s by (auto simp: dual_constraint_def)
qed

theorem C1_witness:
  "\<exists>states'.
     ApplyEvents [initial_state ''p'' 2 8]
       (line_events 0 (take 3 [''aaaa'', ''bbbb'', ''cccc'', ''d''])) = Some states' \<and>
     int (length (Lines (states' ! 0))) \<le> 2 \<and>
     sint (ByteSize (states' ! 0)) \<le> 8 \<and>
     byte_total (Lines (states' ! 0)) \<le> 8"
proof -
  have a: "accounted ([initial_state ''p'' 2 8] ! nat 0)"
    by (simp add: initial_state_def accounted_def)
  have m: "sint (MaxLines ([initial_state ''p'' 2 8] ! nat 0)) = 2"
          "sint (MaxBytes ([initial_state ''p'' 2 8] ! nat 0)) = 8"
    by (simp_all add: initial_state_def)
  have b: "byte_total (Lines ([initial_state ''p'' 2 8] ! nat 0)) +
             byte_total (take 3 [''aaaa'', ''bbbb'', ''cccc'', ''d'']) < 2 ^ 63"
    by (simp add: initial_state_def)
  show ?thesis
    using C1_dual_constraint_after_lines
            [of 0 "[initial_state ''p'' 2 8]" 3 "[''aaaa'', ''bbbb'', ''cccc'', ''d'']"] a m b
    by auto
qed

text \<open>
  Claim C2. In every state that a run of the engine reaches, the events with the index of
  a task are line events, followed by exactly one completion event, the last one, if and
  only if the task's \<open>runProcess\<close> has returned: so whatever path the task took (the
  factory, a pipe or the start failing, the command exiting, a graceful or a forced
  shutdown), it has sent exactly one completion event when it returns. Once it has
  returned, none of its goroutines has a transition left and no later step of the run adds
  an event with its index. Until it has returned, one of its goroutines can take a step
  and the run can go on, and a run has at most \<open>run_bound\<close> steps: every run that is
  continued as long as a step is enabled ends with every task returned.
\<close>

theorem C2_lines_then_one_terminal:
  assumes "engine_run envs sched (Run_init envs) = Some s" and "i < length envs"
  shows "lines_then_terminal (int i) (main (tasks s ! i) = M_Returned)
           (events_of i (outputs s)) \<and>
         length (filter pl_IsComplete (events_of i (outputs s))) =
           (if main (tasks s ! i) = M_Returned then 1 else 0) \<and>
         (main (tasks s ! i) = M_Returned \<longrightarrow>
            task_next (envs ! i) (int i) (ctx_cause s) (tasks s ! i) = [] \<and>
            (\<forall>rest s'. engine_run envs rest s = Some s' \<longrightarrow>
               events_of i (outputs s') = events_of i (outputs s))) \<and>
         (main (tasks s ! i) \<noteq> M_Returned \<longrightarrow>
            task_next (envs ! i) (int i) (ctx_cause s) (tasks s ! i) \<noteq> [] \<and>
            engine_step envs (Step i 0) s \<noteq> None) \<and>
         length sched \<le> run_bound envs"
proof -
  have inv: "engine_inv envs s"
    using engine_run_inv[OF Run_init_inv assms(1)] .
  then have inv_i: "task_inv (int i) (tasks s ! i) (events_of i (outputs s))"
    using assms(2) by (simp add: engine_inv_def)
  have 1: "lines_then_terminal (int i) (main (tasks s ! i) = M_Returned)
             (events_of i (outputs s))"
    using inv_i by (simp add: task_inv_def)
  have 2: "task_next (envs ! i) (int i) (ctx_cause s) (tasks s ! i) = []"
    if "main (tasks s ! i) = M_Returned"
    using returned_quiescent[OF inv_i that] .
  have 3: "events_of i (outputs s') = events_of i (outputs s)"
    if "main (tasks s ! i) = M_Returned" "engine_run envs rest s = Some s'" for rest s'
    using returned_stays[OF inv assms(2) that] by simp
  have 4: "task_next (envs ! i) (int i) (ctx_cause s) (tasks s ! i) \<noteq> []"
    if "main (tasks s ! i) \<noteq> M_Returned"
    using not_returned_enabled[OF inv_i that] .
  have len: "length (tasks s) = length envs"
    using inv by (simp add: engine_inv_def)
  have 5: "engine_step envs (Step i 0) s \<noteq> None"
    if "main (tasks s ! i) \<noteq> M_Returned"
    using 4[OF that] assms(2) len by (simp split: prod.splits)
  have 6: "length sched \<le> run_bound envs"
    using engine_run_rank[OF Run_init_inv assms(1)] by (simp add: run_bound_def)
  show ?thesis using 1 lines_then_terminal_count[OF 1] 2 3 4 5 6 by blast
qed

theorem C2_witness:
  "engine_run [echo_env] forced_kill_schedule (Run_init [echo_env]) = Some forced_kill_final \<and>
   main (tasks forced_kill_final ! 0) = M_Returned \<and>
   lines_then_terminal 0 True (events_of 0 (outputs forced_kill_final)) \<and>
   map pl_IsComplete (events_of 0 (outputs forced_kill_final)) =
     [False, False, False, False, False, True] \<and>
   task_next echo_env 0 (ctx_cause forced_kill_final) (tasks forced_kill_final ! 0) = [] \<and>
   length forced_kill_schedule \<le> run_bound [echo_env]"
proof -
  have r: "main (tasks forced_kill_final ! 0) = M_Returned"
    by (simp add: forced_kill_final_def)
  have e: "map pl_IsComplete (events_of 0 (outputs forced_kill_final)) =
             [False, False, False, False, False, True]"
    by (simp add: forced_kill_final_def events_of_def line_of_def complete_of_def)
  show ?thesis
    using C2_lines_then_one_terminal[OF forced_kill_run, of 0] r e forced_kill_run
    by simp
qed

text \<open>
  Claim C3. On a Line event for an in-range index, \<open>ApplyEvent\<close> does not panic and
  replaces that buffer by the update of the specification (\<open>spec_apply_line\<close>: append,
  add the byte length, evict the oldest lines while a cap is exceeded and the buffer is
  non-empty, mark dirty), for every buffer and line whose byte totals a Go \<open>int\<close>
  holds (\<open>no_wrap\<close>). Applying \<open>l1\<close> to \<open>l5\<close> to the initial buffer with a line cap
  of 3 and no byte cap retains exactly \<open>l3\<close>, \<open>l4\<close>, \<open>l5\<close>.
\<close>

theorem C3_line_event_update:
  assumes "0 \<le> idx" and "idx < int (length states)"
    and "no_wrap (states ! nat idx) line"
  shows "ApplyEvent states (lineEvent line idx) =
           Some (states[nat idx := spec_apply_line (states ! nat idx) line]) \<and>
         ApplyEvents [initial_state name 3 0]
           (line_events 0 [''l1'', ''l2'', ''l3'', ''l4'', ''l5'']) =
           Some [\<lparr>Err = None, Name = name, Lines = [''l3'', ''l4'', ''l5''], ByteSize = 6,
                  MaxLines = 3, MaxBytes = 0, Done = False, Running = True, Dirty = True\<rparr>]"
proof
  show "ApplyEvent states (lineEvent line idx) =
           Some (states[nat idx := spec_apply_line (states ! nat idx) line])"
    using assms by (rule ApplyEvent_line_spec)
next
  show "ApplyEvents [initial_state name 3 0]
           (line_events 0 [''l1'', ''l2'', ''l3'', ''l4'', ''l5'']) =
           Some [\<lparr>Err = None, Name = name, Lines = [''l3'', ''l4'', ''l5''], ByteSize = 6,
                  MaxLines = 3, MaxBytes = 0, Done = False, Running = True, Dirty = True\<rparr>]"
    by (simp add: initial_state_def index_state_def evict_loop.simps exceedsLineLimit_def
          exceedsByteLimit_def Let_def)
qed

theorem C3_witness:
  "no_wrap \<lparr>Err = None, Name = ''b'', Lines = [''ab'', ''cd''], ByteSize = 4, MaxLines = 0,
            MaxBytes = 8, Done = False, Running = True, Dirty = False\<rparr> ''hello'' \<and>
   ApplyEvent [initial_state ''a'' 1 0,
               \<lparr>Err = None, Name = ''b'', Lines = [''ab'', ''cd''], ByteSize = 4, MaxLines = 0,
                MaxBytes = 8, Done = False, Running = True, Dirty = False\<rparr>]
     (lineEvent ''hello'' 1) =
   Some [initial_state ''a'' 1 0,
         \<lparr>Err = None, Name = ''b'', Lines = [''cd'', ''hello''], ByteSize = 7, MaxLines = 0,
          MaxBytes = 8, Done = False, Running = True, Dirty = True\<rparr>]"
proof -
  have w: "no_wrap \<lparr>Err = None, Name = ''b'', Lines = [''ab'', ''cd''], ByteSize = 4,
             MaxLines = 0, MaxBytes = 8, Done = False, Running = True, Dirty = False\<rparr> ''hello''"
    by (simp add: no_wrap_def fits_int_def)
  show ?thesis
    using w C3_line_event_update[of 1 "[initial_state ''a'' 1 0,
               \<lparr>Err = None, Name = ''b'', Lines = [''ab'', ''cd''], ByteSize = 4, MaxLines = 0,
                MaxBytes = 8, Done = False, Running = True, Dirty = False\<rparr>]" "''hello''"]
    by (simp add: spec_apply_line_def)
qed

text \<open>
  Claim C4. The aggregate exit code is 0 when every state has a nil error (so also for
  the empty list of states), and 1 when some state carries an error.
\<close>

theorem C4_exit_code:
  "ExitCodeFromStates states = (if list_all (\<lambda>ps. Err ps = None) states then 0 else 1)"
  by (induction states) auto

text \<open>
  Claim C5. An event whose index is negative or not below the number of buffers is
  ignored: \<open>ApplyEvent\<close> does not panic and leaves the whole slice as it was.
\<close>

theorem C5_out_of_range_ignored:
  assumes "event_index ev < 0 \<or> int (length states) \<le> event_index ev"
  shows "ApplyEvent states ev = Some states"
  using assms by (rule ApplyEvent_out_of_range)

theorem C5_witness:
  "ApplyEvent [initial_state ''a'' 1 0] (lineEvent ''x'' (- 1)) = Some [initial_state ''a'' 1 0] \<and>
   ApplyEvent [initial_state ''a'' 1 0] (doneEvent (Some (Plain ''exit status 1'')) 1) =
     Some [initial_state ''a'' 1 0] \<and>
   ApplyEvent [] (lineEvent ''x'' 0) = Some []"
  using C5_out_of_range_ignored[of "lineEvent ''x'' (- 1)" "[initial_state ''a'' 1 0]"]
        C5_out_of_range_ignored[of "doneEvent (Some (Plain ''exit status 1'')) 1" "[initial_state ''a'' 1 0]"]
        C5_out_of_range_ignored[of "lineEvent ''x'' 0" "[]"]
  by simp

text \<open>
  Claim C6. On a Terminal event for an in-range index, \<open>ApplyEvent\<close> sets \<open>Done\<close>,
  clears \<open>Running\<close>, stores the carried error in place of the previous one and marks the
  buffer dirty. Applying a second Terminal event to the finished process is permitted, and
  leaves exactly what the second event alone would have left: the error is replaced, not
  accumulated.
\<close>

theorem C6_done_event_update:
  assumes "0 \<le> idx" and "idx < int (length states)"
  shows "ApplyEvent states (doneEvent err idx) =
           Some (states[nat idx := (states ! nat idx)\<lparr>Done := True, Running := False,
                                                       Err := err, Dirty := True\<rparr>]) \<and>
         ApplyEvents states [doneEvent err0 idx, doneEvent err idx] =
           ApplyEvent states (doneEvent err idx)"
proof -
  let ?d = "\<lambda>e. states[nat idx := (states ! nat idx)\<lparr>Done := True, Running := False,
                                                       Err := e, Dirty := True\<rparr>]"
  have n: "nat idx < length states" using assms by linarith
  have 1: "\<And>e. ApplyEvent states (doneEvent e idx) = Some (?d e)"
    using assms by (rule ApplyEvent_done_in)
  have "idx < int (length (?d err0))" using assms by simp
  from ApplyEvent_done_in[OF assms(1) this]
  have 2: "ApplyEvent (?d err0) (doneEvent err idx) = Some (?d err)"
    using n by simp
  show ?thesis
    using 1 2 by simp
qed

theorem C6_witness:
  "ApplyEvents [initial_state ''a'' 1 0]
     [doneEvent (Some (Plain ''exit status 1'')) 0, doneEvent None 0] =
   Some [\<lparr>Err = None, Name = ''a'', Lines = [], ByteSize = 0, MaxLines = 1,
          MaxBytes = 0, Done = True, Running = False, Dirty = True\<rparr>]"
  using C6_done_event_update[of 0 "[initial_state ''a'' 1 0]" None "Some (Plain ''exit status 1'')"]
  by (simp add: initial_state_def)

text \<open>
  Claim C7. When the scanner of a stream ends with an error that is not an end of stream
  (\<open>errors.Is(err, io.EOF)\<close> is false), \<open>streamReader\<close> sends the line events of the
  tokens and then exactly one more event, the line \<open>[stream error: <cause>]\<close> with the
  error's text, and returns. Every event it sends is a line event with a nil \<open>Err\<close>:
  none is a completion event. With a nil error it sends the lines of the tokens only. So a
  stream whose read fails with such an error gives the lines read before the failure and
  then the one line with the cause (with the scanner's own error, if a line was too long
  for its buffer before the read failed).
\<close>

theorem C7_stream_error_line:
  assumes "\<not> errors_Is err IoEOF"
  shows "streamReader tokens (Some err) idx =
           map (\<lambda>text. line_of idx (TrimRight text [CR, LF])) tokens @
           [stream_error_line idx err] \<and>
         pl_Line (stream_error_line idx err) = ''[stream error: '' @ Error err @ '']'' \<and>
         list_all (\<lambda>ev. \<not> pl_IsComplete ev \<and> pl_Err ev = None \<and> pl_Index ev = idx)
           (streamReader tokens (Some err) idx) \<and>
         streamReader tokens None idx =
           map (\<lambda>text. line_of idx (TrimRight text [CR, LF])) tokens \<and>
         frame_stream data err idx =
           map (\<lambda>text. line_of idx (TrimRight text [CR, LF]))
             (fst (ScanLines_run scannerMaxBufferSize [] data)) @
           [stream_error_line idx
              (if snd (ScanLines_run scannerMaxBufferSize [] data) then ErrTooLong else err)]"
proof -
  have 1: "streamReader tokens (Some e) idx =
           map (\<lambda>text. line_of idx (TrimRight text [CR, LF])) tokens @
           [stream_error_line idx e]" if "\<not> errors_Is e IoEOF" for tokens e
    using that by (simp add: streamReader_def)
  have 2: "pl_Line (stream_error_line idx err) = ''[stream error: '' @ Error err @ '']''"
    by (simp add: stream_error_line_def line_of_def)
  have 3: "streamReader tokens None idx =
           map (\<lambda>text. line_of idx (TrimRight text [CR, LF])) tokens"
    by (simp add: streamReader_def)
  have long: "\<not> errors_Is ErrTooLong IoEOF"
    by (simp add: ErrTooLong_def)
  have 4: "frame_stream data err idx =
           map (\<lambda>text. line_of idx (TrimRight text [CR, LF]))
             (fst (ScanLines_run scannerMaxBufferSize [] data)) @
           [stream_error_line idx
              (if snd (ScanLines_run scannerMaxBufferSize [] data) then ErrTooLong else err)]"
    using Scanner_run_read_error[OF assms, of data] 1[OF assms] 1[OF long]
    by (simp add: frame_stream_def)
  show ?thesis
    using 1[OF assms] 2 3 4 streamReader_lines_only[of idx tokens "Some err"] by blast
qed

theorem C7_witness:
  "frame_stream (''ab'' @ [LF] @ ''c'') (Plain ''read error'') 3 =
     [line_of 3 ''ab'', line_of 3 ''c'', line_of 3 ''[stream error: read error]'']"
proof -
  have e: "\<not> errors_Is (Plain ''read error'') IoEOF" by simp
  have s: "ScanLines_run scannerMaxBufferSize [] (''ab'' @ [LF] @ ''c'') = ([''ab'', ''c''], False)"
    by (simp add: scannerMaxBufferSize_def dropCR_def CR_def LF_def)
  show ?thesis
    using C7_stream_error_line[OF e, of "[]" 3 "''ab'' @ [LF] @ ''c''"] s
    by (simp add: stream_error_line_def TrimRight_def CR_def LF_def)
qed

text \<open>
  Claim C8 (amended). Whatever the stream, no line that the framer emits ends with
  \<open>\r\<close> or \<open>\n\<close>. The lines of a stream are its pieces between one \<open>\n\<close> and the
  next (\<open>LF_lines\<close>: no piece contains \<open>\n\<close>, and the pieces, each followed by
  \<open>\n\<close>, are the stream, with a \<open>\n\<close> added if its last line has none). On every
  stream whose lines fit the scanner's buffer the framer emits exactly one line event per
  piece, in order, with the text of the piece without the \<open>\r\<close>s at its end, and
  then the stream-error line if the stream did not end cleanly. So \<open>\n\<close> and \<open>\r\n\<close>
  end a line, and a \<open>\r\<close> that is not followed by \<open>\n\<close> does not: it stays in
  the text of its line, unless it is at the end of the stream. When every \<open>\r\<close> of the
  stream is directly followed by \<open>\n\<close>, the emitted lines are the lines that the three
  terminators give.
\<close>

theorem C8_line_framing:
  "list_all (\<lambda>ev. \<not> ends_with_eol (pl_Line ev)) (frame_stream data readErr idx) \<and>
   list_all (\<lambda>p. LF \<notin> set p \<and> (\<exists>k. p = TrimRight p [CR, LF] @ replicate k CR))
     (LF_lines [] data) \<and>
   concat (map (\<lambda>p. p @ [LF]) (LF_lines [] data)) =
     (if data = [] \<or> last data = LF then data else data @ [LF]) \<and>
   (lines_fit data \<longrightarrow>
      frame_stream data readErr idx =
        map (\<lambda>p. line_of idx (TrimRight p [CR, LF])) (LF_lines [] data) @
        (if errors_Is readErr IoEOF then [] else [stream_error_line idx readErr])) \<and>
   (lines_fit data \<and> no_lone_CR data \<longrightarrow>
      map pl_Line (frame_stream data IoEOF idx) = spec_frame [] data)"
proof (intro conjI impI)
  show "list_all (\<lambda>ev. \<not> ends_with_eol (pl_Line ev)) (frame_stream data readErr idx)"
    by (simp add: frame_stream_def streamReader_no_eol split: prod.splits)
next
  have "list_all (\<lambda>p. LF \<notin> set p) (LF_lines [] data)"
    by (rule LF_lines_no_LF) simp
  then show "list_all (\<lambda>p. LF \<notin> set p \<and> (\<exists>k. p = TrimRight p [CR, LF] @ replicate k CR))
     (LF_lines [] data)"
    by (simp add: list_all_iff TrimRight_only_CR)
next
  show "concat (map (\<lambda>p. p @ [LF]) (LF_lines [] data)) =
     (if data = [] \<or> last data = LF then data else data @ [LF])"
    using LF_lines_concat[of "[]" data] by auto
next
  assume "lines_fit data"
  then show "frame_stream data readErr idx =
        map (\<lambda>p. line_of idx (TrimRight p [CR, LF])) (LF_lines [] data) @
        (if errors_Is readErr IoEOF then [] else [stream_error_line idx readErr])"
    by (rule frame_stream_LF_lines)
next
  assume h: "lines_fit data \<and> no_lone_CR data"
  then have t: "ScanLines_run scannerMaxBufferSize [] data =
                  (map dropCR (LF_lines [] data), False)"
    by (intro ScanLines_run_LF_lines) (simp add: lines_fit_def)
  have "map (\<lambda>text. TrimRight text [CR, LF]) (map dropCR (LF_lines [] data)) = spec_frame [] data"
    using ScanLines_run_spec_frame[OF clean_Nil _ t] h by simp
  then show "map pl_Line (frame_stream data IoEOF idx) = spec_frame [] data"
    using t by (simp add: frame_stream_def Scanner_run_def streamReader_def line_of_def comp_def)
qed

theorem C8_witness:
  "lines_fit (''a'' @ [CR] @ ''b'' @ [LF] @ ''10%'' @ [CR] @ ''20%'' @ [CR, LF] @ ''c'') \<and>
   map pl_Line (frame_stream
       (''a'' @ [CR] @ ''b'' @ [LF] @ ''10%'' @ [CR] @ ''20%'' @ [CR, LF] @ ''c'') IoEOF 0) =
     [''a'' @ [CR] @ ''b'', ''10%'' @ [CR] @ ''20%'', ''c''] \<and>
   map pl_Line (frame_stream (''a'' @ [CR, LF] @ ''b'' @ [LF, LF] @ ''c'') IoEOF 0) =
     [''a'', ''b'', [], ''c'']"
proof -
  have f: "lines_fit (''a'' @ [CR] @ ''b'' @ [LF] @ ''10%'' @ [CR] @ ''20%'' @ [CR, LF] @ ''c'')"
    by (simp add: lines_fit_def scannerMaxBufferSize_def CR_def LF_def)
  have g: "lines_fit (''a'' @ [CR, LF] @ ''b'' @ [LF, LF] @ ''c'')"
    by (simp add: lines_fit_def scannerMaxBufferSize_def CR_def LF_def)
  have n: "no_lone_CR (''a'' @ [CR, LF] @ ''b'' @ [LF, LF] @ ''c'')"
    by (simp add: CR_def LF_def)
  show ?thesis
    using C8_line_framing[of "''a'' @ [CR] @ ''b'' @ [LF] @ ''10%'' @ [CR] @ ''20%'' @ [CR, LF] @ ''c''" IoEOF 0]
          C8_line_framing[of "''a'' @ [CR, LF] @ ''b'' @ [LF, LF] @ ''c''" IoEOF 0]
          f g n
    by (simp add: CR_def LF_def TrimRight_def line_of_def)
qed

text \<open>
  The claim as stated treats a lone \<open>\r\<close> as a line terminator. On the input
  \<open>a\rb\n\<close> that gives the lines \<open>a\<close> and \<open>b\<close>; the framer emits the single line
  \<open>a\rb\<close>.
\<close>

theorem C8_counterexample:
  "map pl_Line (frame_stream (''a'' @ [CR] @ ''b'' @ [LF]) IoEOF 0) = [''a'' @ [CR] @ ''b''] \<and>
   spec_frame [] (''a'' @ [CR] @ ''b'' @ [LF]) = [''a'', ''b''] \<and>
   map pl_Line (frame_stream (''a'' @ [CR] @ ''b'' @ [LF]) IoEOF 0) \<noteq>
     spec_frame [] (''a'' @ [CR] @ ''b'' @ [LF])"
  by (simp add: frame_stream_def Scanner_run_def scannerMaxBufferSize_def streamReader_def
        line_of_def dropCR_def TrimRight_def CR_def LF_def)

text \<open>
  Claim C9. If in every state of the slice the running byte total is the byte total of
  its lines, then \<open>ApplyEvent\<close>, for any event (Line or Terminal, any index), does not
  panic and leaves a slice in which this still holds for every state.
\<close>

theorem C9_byte_accounting_preserved:
  assumes "list_all accounted states"
  shows "\<exists>states'. ApplyEvent states ev = Some states' \<and> list_all accounted states'"
proof (cases "event_index ev < 0 \<or> int (length states) \<le> event_index ev")
  case True
  then show ?thesis using assms by (simp add: ApplyEvent_out_of_range)
next
  case False
  then have r: "0 \<le> event_index ev" "event_index ev < int (length states)" by auto
  then have n: "nat (event_index ev) < length states" by linarith
  then have a: "accounted (states ! nat (event_index ev))"
    using assms by (simp add: list_all_length)
  show ?thesis
  proof (cases ev)
    case (lineEvent line idx)
    from ApplyEvent_line_step[of idx states line] r lineEvent obtain ps' where
      p: "ApplyEvent states (lineEvent line idx) = Some (states[nat idx := ps'])"
         "accounted (states ! nat idx) \<longrightarrow> accounted ps' \<and> dual_constraint ps'"
      by auto
    then show ?thesis
      using a assms lineEvent by (simp add: list_all_update)
  next
    case (doneEvent err idx)
    have "accounted ((states ! nat idx)\<lparr>Done := True, Running := False,
                                        Err := err, Dirty := True\<rparr>)"
      using a doneEvent by (simp add: accounted_def)
    then show ?thesis
      using r assms doneEvent ApplyEvent_done_in[of idx states err]
      by (simp add: list_all_update)
  qed
qed

theorem C9_witness:
  "list_all accounted [initial_state ''a'' 1 0] \<and>
   (\<exists>states'. ApplyEvent [initial_state ''a'' 1 0] (lineEvent ''hello'' 0) = Some states' \<and>
               list_all accounted states')"
proof -
  have a: "list_all accounted [initial_state ''a'' 1 0]"
    by (simp add: accounted_def initial_state_def byte_total_def)
  show ?thesis
    using a C9_byte_accounting_preserved[OF a, of "lineEvent ''hello'' 0"] by simp
qed

text \<open>
  Claim C10. An event with an in-range index changes only the state at that index: the
  slice keeps its length and every other element. At that index \<open>Name\<close>, \<open>MaxLines\<close>
  and \<open>MaxBytes\<close> are unchanged; a Line event also leaves \<open>Done\<close>, \<open>Running\<close> and
  \<open>Err\<close> unchanged, and a Terminal event leaves \<open>Lines\<close> and \<open>ByteSize\<close> unchanged.
\<close>

theorem C10_frame:
  assumes "0 \<le> event_index ev" and "event_index ev < int (length states)"
  shows "\<exists>states'. ApplyEvent states ev = Some states' \<and>
           length states' = length states \<and>
           (\<forall>j < length states. j \<noteq> nat (event_index ev) \<longrightarrow> states' ! j = states ! j) \<and>
           Name (states' ! nat (event_index ev)) = Name (states ! nat (event_index ev)) \<and>
           MaxLines (states' ! nat (event_index ev)) = MaxLines (states ! nat (event_index ev)) \<and>
           MaxBytes (states' ! nat (event_index ev)) = MaxBytes (states ! nat (event_index ev)) \<and>
           (case ev of
              lineEvent line idx \<Rightarrow>
                Done (states' ! nat idx) = Done (states ! nat idx) \<and>
                Running (states' ! nat idx) = Running (states ! nat idx) \<and>
                Err (states' ! nat idx) = Err (states ! nat idx)
            | doneEvent err idx \<Rightarrow>
                Lines (states' ! nat idx) = Lines (states ! nat idx) \<and>
                ByteSize (states' ! nat idx) = ByteSize (states ! nat idx))"
proof -
  have n: "nat (event_index ev) < length states" using assms by linarith
  show ?thesis
  proof (cases ev)
    case (lineEvent line idx)
    from ApplyEvent_line_step[of idx states line] assms lineEvent obtain ps' where
      p: "ApplyEvent states (lineEvent line idx) = Some (states[nat idx := ps'])"
         "Err ps' = Err (states ! nat idx)" "Name ps' = Name (states ! nat idx)"
         "MaxLines ps' = MaxLines (states ! nat idx)"
         "MaxBytes ps' = MaxBytes (states ! nat idx)"
         "Done ps' = Done (states ! nat idx)" "Running ps' = Running (states ! nat idx)"
      by auto
    then show ?thesis
      using assms n lineEvent by simp
  next
    case (doneEvent err idx)
    then show ?thesis
      using assms n ApplyEvent_done_in[of idx states err] by simp
  qed
qed

theorem C10_witness:
  "\<exists>states'. ApplyEvent [initial_state ''a'' 1 0, initial_state ''b'' 1 0]
                 (doneEvent None 1) = Some states' \<and>
     length states' = 2 \<and> states' ! 0 = initial_state ''a'' 1 0 \<and>
     Lines (states' ! 1) = [] \<and> ByteSize (states' ! 1) = 0 \<and> Name (states' ! 1) = ''b''"
  using C10_frame[of "doneEvent None 1" "[initial_state ''a'' 1 0, initial_state ''b'' 1 0]"]
  by (auto simp: initial_state_def)

end
